theory Spec2Isabelle
  imports Complex_Main "HOL-Library.Log_Nat"
begin

section \<open>Python values used by find\_gcs.py\<close>

text \<open>
  The program is a single Python script, \<^verbatim>\<open>find_gcs.py\<close>. Its integers are unbounded;
  allele codes, cluster ids, list indices and counts are non-negative and are modelled
  by \<^typ>\<open>nat\<close>, positions by \<^typ>\<open>int\<close>. Exceptions are values of \<open>error\<close>, and a
  computation that may raise returns \<open>error + 'a\<close>. An exception ends the program, so
  nothing is kept of the state in which it was raised (what was printed before it is
  not part of the result \<open>Inl e\<close>).
\<close>

datatype error = IndexError | ValueError | ZeroDivisionError

text \<open>A list comprehension whose element expression may raise, and a \<^verbatim>\<open>for\<close> loop whose
  body may raise: both stop at the first exception.\<close>

fun mapE :: "('a \<Rightarrow> error + 'b) \<Rightarrow> 'a list \<Rightarrow> error + 'b list" where
  "mapE f [] = Inr []"
| "mapE f (x # xs) =
     (case f x of
        Inl e \<Rightarrow> Inl e
      | Inr y \<Rightarrow> (case mapE f xs of Inl e \<Rightarrow> Inl e | Inr ys \<Rightarrow> Inr (y # ys)))"

fun foldE :: "('a \<Rightarrow> 's \<Rightarrow> error + 's) \<Rightarrow> 'a list \<Rightarrow> 's \<Rightarrow> error + 's" where
  "foldE f [] s = Inr s"
| "foldE f (x # xs) s = (case f x s of Inl e \<Rightarrow> Inl e | Inr s' \<Rightarrow> foldE f xs s')"

text \<open>\<^verbatim>\<open>max(xs)\<close> raises ValueError on an empty sequence.\<close>

definition py_max :: "'a::linorder list \<Rightarrow> error + 'a" where
  "py_max xs = (case xs of [] \<Rightarrow> Inl ValueError | y # ys \<Rightarrow> Inr (fold max ys y))"

text \<open>\<^verbatim>\<open>sum(bs)\<close> of a list of booleans counts the true ones; \<^verbatim>\<open>all(bs)\<close>.\<close>

definition py_sum_bool :: "bool list \<Rightarrow> nat" where
  "py_sum_bool bs = count_list bs True"

definition py_all :: "bool list \<Rightarrow> bool" where
  "py_all bs = list_all (\<lambda>b. b) bs"

subsection \<open>Floats\<close>

text \<open>
  A Python float is an IEEE 754 binary64 number. The finite ones are modelled by the
  rational they denote, and every arithmetic operation by the exact operation followed
  by \<open>fl\<close>, rounding to 53 significant bits, ties to even. The exponent range is not
  modelled (no overflow, no subnormal numbers): the floats the program computes are
  quotients \<open>c / n\<close> with \<open>c \<le> n\<close>, differences \<open>1.0 - f\<close> and the numbers
  \<open>nhaps / 2\<close>, \<open>i / nindiv\<close>, all far inside the normal range for any list that fits in
  memory.
\<close>

definition round_half_even :: "rat \<Rightarrow> int" where
  "round_half_even x =
     (let f = \<lfloor>x\<rfloor>; d = x - of_int f
      in if d < 1 / 2 then f
         else if 1 / 2 < d then f + 1
         else if even f then f else f + 1)"

text \<open>\<open>ilog2 q\<close> is the binary exponent of \<open>q > 0\<close>: \<open>2 powi ilog2 q \<le> q < 2 powi (ilog2 q + 1)\<close>.\<close>

definition ilog2 :: "rat \<Rightarrow> int" where
  "ilog2 q =
     (let (a, b) = quotient_of q; e0 = bitlen a - bitlen b
      in if q < 2 powi e0 then e0 - 1 else e0)"

definition fl :: "rat \<Rightarrow> rat" where
  "fl q =
     (if q = 0 then 0
      else let a = \<bar>q\<bar>; s = 2 powi (ilog2 a - 52)
           in sgn q * of_int (round_half_even (a / s)) * s)"

text \<open>\<^verbatim>\<open>a / b\<close> on two ints: the correctly rounded quotient, ZeroDivisionError for \<open>b = 0\<close>.\<close>

definition py_truediv :: "nat \<Rightarrow> nat \<Rightarrow> error + rat" where
  "py_truediv a b =
     (if b = 0 then Inl ZeroDivisionError else Inr (fl (of_nat a / of_nat b)))"

text \<open>\<^verbatim>\<open>x % y\<close> on non-negative floats (\<open>y > 0\<close>) is exact; \<^verbatim>\<open>int(x)\<close> truncates.\<close>

definition py_fmod :: "rat \<Rightarrow> rat \<Rightarrow> rat" where
  "py_fmod x y = x - of_int \<lfloor>x / y\<rfloor> * y"

definition py_int :: "rat \<Rightarrow> int" where
  "py_int x = (if 0 \<le> x then \<lfloor>x\<rfloor> else \<lceil>x\<rceil>)"

subsection \<open>Printing\<close>

function str_nat :: "nat \<Rightarrow> string" where
  "str_nat n =
     (if n < 10 then [''0123456789'' ! n]
      else str_nat (n div 10) @ [''0123456789'' ! (n mod 10)])"
  by pat_completeness auto
termination
  by (relation "measure (\<lambda>n. n)") auto

declare str_nat.simps [simp del]

definition str_int :: "int \<Rightarrow> string" where
  "str_int i = (if i < 0 then CHR ''-'' # str_nat (nat (- i)) else str_nat (nat i))"

text \<open>A \<^verbatim>\<open>Counter\<close>: \<^verbatim>\<open>c.update([k])\<close> adds one to the count of \<open>k\<close>, a missing key counting
  as zero.\<close>

definition counter_update :: "(nat \<rightharpoonup> nat) \<Rightarrow> nat \<Rightarrow> (nat \<rightharpoonup> nat)" where
  "counter_update c k = c(k \<mapsto> (case c k of None \<Rightarrow> 1 | Some v \<Rightarrow> v + 1))"

section \<open>Data\<close>

text \<open>
  A line of the cluster file after \<^verbatim>\<open>split()\<close>: \<open>cpos\<close> is \<^verbatim>\<open>int(onew[1])\<close> and \<open>cgt\<close> the
  fields \<^verbatim>\<open>onew[3:]\<close>, each \<^verbatim>\<open>a|b\<close> read as the pair of cluster ids of one sample. A data
  line of the VCF: \<open>vpos\<close> is \<^verbatim>\<open>int(vbits[1])\<close> and \<open>vgt\<close> the genotype fields
  \<^verbatim>\<open>[vbits[i] for i in vindex]\<close>, that is, already in the sample order of the cluster
  file, each \<^verbatim>\<open>a|b\<close> read as a pair of allele codes. Splitting lines and converting tokens
  is not modelled.
\<close>

record crec =
  cpos :: int
  cgt :: "(nat \<times> nat) list"

record vrec =
  vpos :: int
  vgt :: "(nat \<times> nat) list"

text \<open>
  The values fixed before the main loop: \<open>c_nindiv\<close> is the global \<^verbatim>\<open>nindiv\<close>, \<^verbatim>\<open>len(vindex)\<close>, the number of
  samples named in the header of the cluster file (\<^verbatim>\<open>n = 2*nindiv\<close>); \<open>c_nhaps\<close> is the
  global \<^verbatim>\<open>nhaps\<close>, twice the number of sample fields of the first data line of the
  cluster file; \<open>c_minaf\<close> is \<^verbatim>\<open>minaf\<close>,
  \<^verbatim>\<open>float(sys.argv[2])\<close>, a finite float.
\<close>

record config =
  c_nindiv :: nat
  c_nhaps :: nat
  c_minaf :: rat

definition maxmaf :: rat where "maxmaf = 1"
definition minclustsize :: nat where "minclustsize = 4"
definition minpartsize :: nat where "minpartsize = 2"
definition deletion :: bool where "deletion = True"

text \<open>
  What the main loop changes: the two buffered cluster records, the unread lines of the
  cluster file, the deletion counter \<^verbatim>\<open>ndel[0]\<close>, the histogram \<^verbatim>\<open>acclustsizes\<close>, and the
  characters written to standard output and to standard error.
\<close>

record state =
  oprev :: crec
  onew :: crec
  omibdfile :: "crec list"
  ndel :: nat
  acclustsizes :: "nat \<rightharpoonup> nat"
  stdout :: string
  stderr :: string

section \<open>Finding the closest cluster record\<close>

text \<open>
  \<^verbatim>\<open>
  while pos > int(onew[1]):
      oprev = onew
      onew = omibdfile.readline().split()
      if len(onew)==0:
          onew = oprev
          break
  \<close>
  At the end of the file \<^verbatim>\<open>readline\<close> returns the empty string, at every call. The
  unread part of the file is the list of its remaining data lines; a file with blank
  lines between its data lines is not modelled.
\<close>

fun advance :: "int \<Rightarrow> crec \<Rightarrow> crec \<Rightarrow> crec list \<Rightarrow> crec \<times> crec \<times> crec list" where
  "advance pos op on [] = (if cpos on < pos then (on, on, []) else (op, on, []))"
| "advance pos op on (r # rs) =
     (if cpos on < pos then advance pos on r rs else (op, on, r # rs))"

text \<open>\<^verbatim>\<open>othis = onew if abs(int(onew[1])-pos)<abs(int(oprev[1])-pos) else oprev\<close>\<close>

definition closest :: "int \<Rightarrow> crec \<Rightarrow> crec \<Rightarrow> crec" where
  "closest pos op on = (if \<bar>cpos on - pos\<bar> < \<bar>cpos op - pos\<bar> then on else op)"

definition synchronize :: "int \<Rightarrow> state \<Rightarrow> state \<times> crec" where
  "synchronize pos st =
     (case advance pos (oprev st) (onew st) (omibdfile st) of
        (op, on, rest) \<Rightarrow>
          (st\<lparr>oprev := op, onew := on, omibdfile := rest\<rparr>, closest pos op on))"


section \<open>Allele frequencies\<close>

text \<open>
  \<^verbatim>\<open>
  valleles = [int(x.split('|')[0]) for x in ...] + [int(x.split('|')[1]) for x in ...]
  uniqalleles = list(set(valleles))
  nalleles = len(uniqalleles)
  \<close>
  Of \<open>uniqalleles\<close> the program uses the length and the maximum only, so the order of
  its elements does not matter.
\<close>

definition valleles_of :: "vrec \<Rightarrow> nat list" where
  "valleles_of v = map fst (vgt v) @ map snd (vgt v)"

definition oclust_of :: "crec \<Rightarrow> nat list" where
  "oclust_of othis = map fst (cgt othis) @ map snd (cgt othis)"

definition uniqalleles :: "nat list \<Rightarrow> nat list" where
  "uniqalleles valleles = remdups valleles"

text \<open>\<^verbatim>\<open>allelefreqs = [sum([x==i for x in valleles])/n for i in range(maxalleleplus)]\<close>\<close>

definition allelefreqs :: "nat \<Rightarrow> nat list \<Rightarrow> nat \<Rightarrow> error + rat list" where
  "allelefreqs n valleles maxalleleplus =
     mapE (\<lambda>i. py_truediv (py_sum_bool (map (\<lambda>x. x = i) valleles)) n) [0..<maxalleleplus]"

text \<open>
  \<^verbatim>\<open>
  maxalleleplus = max(uniqalleles)+1
  allelefreqs = [...]
  maf = 1.0 - max(allelefreqs)
  \<close>
  The result is \<open>(maxalleleplus, allelefreqs, maf)\<close>.
\<close>

definition allele_stats :: "nat \<Rightarrow> nat list \<Rightarrow> error + (nat \<times> rat list \<times> rat)" where
  "allele_stats n valleles =
     (case py_max (uniqalleles valleles) of
        Inl e \<Rightarrow> Inl e
      | Inr m \<Rightarrow>
          (let maxalleleplus = m + 1
           in case allelefreqs n valleles maxalleleplus of
                Inl e \<Rightarrow> Inl e
              | Inr fs \<Rightarrow>
                  (case py_max fs of
                     Inl e \<Rightarrow> Inl e
                   | Inr mf \<Rightarrow> Inr (maxalleleplus, fs, fl (1 - mf)))))"

section \<open>Counting alleles in clusters\<close>

text \<open>
  \<^verbatim>\<open>
  counts = [[0]*maxalleleplus for j in range(maxclustplus)]
  clustsize = [0]*maxclustplus
  for i in range(nhaps):
      counts[oclust[i]][valleles[i]]+=1
      clustsize[oclust[i]]+=1
  \<close>
  The rows of \<open>counts\<close> are separate lists. An index past the end of a list raises.
\<close>

definition tab_step ::
  "nat list \<Rightarrow> nat list \<Rightarrow> nat \<Rightarrow> nat list list \<times> nat list \<Rightarrow> error + (nat list list \<times> nat list)"
where
  "tab_step oclust valleles i cc =
     (case cc of (counts, clustsize) \<Rightarrow>
        if length oclust \<le> i then Inl IndexError
        else if length counts \<le> oclust ! i then Inl IndexError
        else if length valleles \<le> i then Inl IndexError
        else if length (counts ! (oclust ! i)) \<le> valleles ! i then Inl IndexError
        else if length clustsize \<le> oclust ! i then Inl IndexError
        else Inr (counts[oclust ! i :=
                      (counts ! (oclust ! i))[valleles ! i :=
                          counts ! (oclust ! i) ! (valleles ! i) + 1]],
                  clustsize[oclust ! i := clustsize ! (oclust ! i) + 1]))"

definition tabulate ::
  "nat \<Rightarrow> nat list \<Rightarrow> nat list \<Rightarrow> nat \<Rightarrow> nat \<Rightarrow> error + (nat list list \<times> nat list)"
where
  "tabulate nhaps oclust valleles maxclustplus maxalleleplus =
     foldE (tab_step oclust valleles) [0..<nhaps]
       (replicate maxclustplus (replicate maxalleleplus 0), replicate maxclustplus 0)"

text \<open>
  \<^verbatim>\<open>
  if nalleles>2:
      if sum([x>0 for x in allelefreqs])>2:
          for i in range(maxalleleplus):
              if allelefreqs[i] < minaf:
                  for x in counts:
                      x[i] = 0
  \<close>
  Here \<open>allelefreqs\<close> and every row of \<open>counts\<close> have length \<open>maxalleleplus\<close>, so no
  index is out of range.
\<close>

definition remove_rare ::
  "nat \<Rightarrow> rat list \<Rightarrow> rat \<Rightarrow> nat \<Rightarrow> nat list list \<Rightarrow> nat list list"
where
  "remove_rare nalleles fs minaf maxalleleplus counts =
     (if 2 < nalleles then
        if 2 < py_sum_bool (map (\<lambda>x. 0 < x) fs) then
          fold (\<lambda>i cs. if fs ! i < minaf then map (\<lambda>x. x[i := 0]) cs else cs)
            [0..<maxalleleplus] counts
        else counts
      else counts)"

section \<open>Reporting the mixed clusters\<close>

text \<open>
  \<^verbatim>\<open>
  def is_homozygous(valleles,hapindex):
      if hapindex < nindiv: otherindex = hapindex + nindiv
      else: otherindex = hapindex - nindiv
      return valleles[hapindex]==valleles[otherindex]
  \<close>
  \<open>nindiv\<close> is the global one, the number of samples of the header of the cluster
  file. (The function \<^verbatim>\<open>is_correctable\<close> of the script is never called.)
\<close>

definition is_homozygous :: "nat \<Rightarrow> nat list \<Rightarrow> nat \<Rightarrow> error + bool" where
  "is_homozygous nindiv valleles hapindex =
     (let otherindex = (if hapindex < nindiv then hapindex + nindiv else hapindex - nindiv)
      in if length valleles \<le> hapindex then Inl IndexError
         else if length valleles \<le> otherindex then Inl IndexError
         else Inr (valleles ! hapindex = valleles ! otherindex))"

text \<open>
  \<^verbatim>\<open>print(':'.join([str(int(i % nindiv)), str(int(i/nindiv))]),end=' ')\<close> where
  \<^verbatim>\<open>nindiv = nhaps/2\<close> is local to \<^verbatim>\<open>print_gcs\<close> and a float, \<^verbatim>\<open>nhaps = len(oclust)\<close>. It is
  printed for indices \<open>i < nhaps\<close> only, so \<open>nindiv\<close> is not zero.
\<close>

definition hap_identity :: "nat \<Rightarrow> nat \<Rightarrow> string" where
  "hap_identity nhaps i =
     (let nindiv = fl (of_nat nhaps / 2); x = fl (of_nat i)
      in str_int (py_int (py_fmod x nindiv)) @ '':'' @ str_int (py_int (fl (x / nindiv))))"

text \<open>
  \<^verbatim>\<open>
  print(pos, len(hapindices0), len(hapindices1),end=' ')
  for i in hapindices0 + hapindices1:
      print(..., end=' ')
  print()
  \<close>
\<close>

definition report_line :: "int \<Rightarrow> nat \<Rightarrow> nat list \<Rightarrow> nat list \<Rightarrow> string" where
  "report_line pos nhaps hapindices0 hapindices1 =
     str_int pos @ '' '' @ str_nat (length hapindices0) @ '' '' @
     str_nat (length hapindices1) @ '' '' @
     concat (map (\<lambda>i. hap_identity nhaps i @ '' '') (hapindices0 @ hapindices1)) @
     [CHR 0x0A]"

text \<open>\<^verbatim>\<open>print("more than two alleles in cluster at", pos, "printing first two",file=sys.stderr)\<close>\<close>

definition more_than_two_msg :: "int \<Rightarrow> string" where
  "more_than_two_msg pos =
     ''more than two alleles in cluster at'' @ '' '' @ str_int pos @ '' '' @
     ''printing first two'' @ [CHR 0x0A]"

definition mismatch_msg :: string where
  "mismatch_msg = ''files don't match in number of individuals'' @ [CHR 0x0A]"

text \<open>\<^verbatim>\<open>hapindices = [i for i in range(nhaps) if oclust[i]==j]\<close>\<close>

definition hapindices :: "nat list \<Rightarrow> nat \<Rightarrow> nat list" where
  "hapindices oclust j = filter (\<lambda>i. oclust ! i = j) [0..<length oclust]"

text \<open>\<^verbatim>\<open>whichalleles = [i for i in range(len(x)) if x[i]>1]\<close>\<close>

definition whichalleles :: "nat list \<Rightarrow> nat list" where
  "whichalleles x = filter (\<lambda>i. 1 < x ! i) [0..<length x]"

text \<open>
  \<^verbatim>\<open>
  which0 = [i for i in range(len(hapindices)) if valleles[hapindices[i]] == whichalleles[0] ]
  hapindices0 = [hapindices[i] for i in which0]
  \<close>
  and the same for \<open>whichalleles[1]\<close>.
\<close>

definition subcluster :: "nat list \<Rightarrow> nat list \<Rightarrow> nat \<Rightarrow> nat list" where
  "subcluster valleles hs a =
     (let which = filter (\<lambda>i. valleles ! (hs ! i) = a) [0..<length hs]
      in map (\<lambda>i. hs ! i) which)"

text \<open>
  The body of the loop of \<^verbatim>\<open>print_gcs\<close>, for the cluster \<open>j\<close> with count row \<open>x\<close> and size
  \<open>z\<close>. When it reaches \<open>whichalleles\<close>, at least two entries of \<open>x\<close> are 2 or more, so
  \<^verbatim>\<open>whichalleles[0]\<close> and \<^verbatim>\<open>whichalleles[1]\<close> exist; and \<^verbatim>\<open>is_homozygous\<close> has read
  \<open>valleles\<close> at every index of \<open>hapindices\<close>, so these reads do not raise again.
\<close>

definition gcs_cluster ::
  "nat \<Rightarrow> nat list \<Rightarrow> nat list \<Rightarrow> int \<Rightarrow> nat \<times> nat list \<times> nat \<Rightarrow> state \<Rightarrow> error + state"
where
  "gcs_cluster nindiv valleles oclust pos jxz st =
     (case jxz of (j, x, z) \<Rightarrow>
        if z < minclustsize then Inr st
        else
          let doubleplus = map (\<lambda>y. minpartsize \<le> y) x
          in if py_sum_bool doubleplus \<le> 1 then Inr st
             else
               let st1 = (if 2 < py_sum_bool doubleplus
                          then st\<lparr>stderr := stderr st @ more_than_two_msg pos\<rparr> else st);
                   nhaps = length oclust;
                   hs = hapindices oclust j
               in case mapE (is_homozygous nindiv valleles) hs of
                    Inl e \<Rightarrow> Inl e
                  | Inr homozygous \<Rightarrow>
                      if deletion \<and> py_all homozygous
                      then Inr (st1\<lparr>ndel := ndel st1 + 1\<rparr>)
                      else
                        let hapindices0 = subcluster valleles hs (whichalleles x ! 0);
                            hapindices1 = subcluster valleles hs (whichalleles x ! 1)
                        in Inr (st1\<lparr>stdout := stdout st1 @
                                        report_line pos nhaps hapindices0 hapindices1,
                                     acclustsizes :=
                                        counter_update (acclustsizes st1) (length hs)\<rparr>))"

text \<open>\<^verbatim>\<open>for j,x,z in zip(range(nclust),counts,clustsize)\<close> with \<^verbatim>\<open>nclust = len(oclust)\<close>.\<close>

definition print_gcs ::
  "nat \<Rightarrow> nat list \<Rightarrow> nat list \<Rightarrow> nat list list \<Rightarrow> int \<Rightarrow> nat list \<Rightarrow> state \<Rightarrow> error + state"
where
  "print_gcs nindiv valleles oclust counts pos clustsize st =
     foldE (gcs_cluster nindiv valleles oclust pos)
       (zip [0..<length oclust] (zip counts clustsize)) st"

section \<open>The main loop\<close>

text \<open>
  What follows the frequency filter, for a variant that passed it:
  \<^verbatim>\<open>
  oclust = [int(x.split('|')[0]) for x in othis[3:]] + [int(x.split('|')[1]) for x in othis[3:]]
  if len(valleles)!=nhaps:
      print("files don't match in number of individuals",file=sys.stderr)
  maxclustplus = max(oclust)+1
  \<close>
  then the counting, the removal of rare alleles and \<^verbatim>\<open>print_gcs\<close>.
\<close>

definition compare_clusters ::
  "config \<Rightarrow> crec \<Rightarrow> int \<Rightarrow> nat list \<Rightarrow> nat \<Rightarrow> nat \<Rightarrow> rat list \<Rightarrow> state \<Rightarrow> error + state"
where
  "compare_clusters cfg othis pos valleles nalleles maxalleleplus fs st =
     (let oclust = oclust_of othis;
          st1 = (if length valleles \<noteq> c_nhaps cfg
                 then st\<lparr>stderr := stderr st @ mismatch_msg\<rparr> else st)
      in case py_max oclust of
           Inl e \<Rightarrow> Inl e
         | Inr mc \<Rightarrow>
             (let maxclustplus = mc + 1
              in case tabulate (c_nhaps cfg) oclust valleles maxclustplus maxalleleplus of
                   Inl e \<Rightarrow> Inl e
                 | Inr (counts, clustsize) \<Rightarrow>
                     print_gcs (c_nindiv cfg) valleles oclust
                       (remove_rare nalleles fs (c_minaf cfg) maxalleleplus counts)
                       pos clustsize st1))"

text \<open>
  One pass of the loop over the data lines of the VCF:
  \<^verbatim>\<open>
  if nalleles==1: continue # skip monomorphics
  ...
  if maf > maxmaf: continue
  if maf < minaf: continue
  \<close>
\<close>

definition process_variant :: "config \<Rightarrow> vrec \<Rightarrow> state \<Rightarrow> error + state" where
  "process_variant cfg v st =
     (case synchronize (vpos v) st of (st1, othis) \<Rightarrow>
        let valleles = valleles_of v;
            nalleles = length (uniqalleles valleles)
        in if nalleles = 1 then Inr st1
           else
             case allele_stats (2 * c_nindiv cfg) valleles of
               Inl e \<Rightarrow> Inl e
             | Inr (maxalleleplus, fs, maf) \<Rightarrow>
                 if maxmaf < maf then Inr st1
                 else if maf < c_minaf cfg then Inr st1
                 else compare_clusters cfg othis (vpos v) valleles nalleles maxalleleplus fs st1)"

definition main_loop :: "config \<Rightarrow> vrec list \<Rightarrow> state \<Rightarrow> error + state" where
  "main_loop cfg vs st = foldE (process_variant cfg) vs st"

text \<open>
  Before the loop: the first data line of the cluster file is both buffered records,
  the counter is zero and the histogram is empty.
  \<^verbatim>\<open>
  oprev = omibdfile.readline().split()
  onew = oprev
  ndel = [0]
  \<close>
\<close>

definition initial_state :: "crec \<Rightarrow> crec list \<Rightarrow> state" where
  "initial_state first rest =
     \<lparr>oprev = first, onew = first, omibdfile = rest, ndel = 0,
      acclustsizes = Map.empty, stdout = [], stderr = []\<rparr>"

section \<open>The report, as the specification words it\<close>

text \<open>
  The candidate alleles of a cluster are the alleles whose count in the cluster is at
  least the minimum subcluster size, in ascending order of allele code. A subcluster is
  the haplotypes of the cluster that carry one allele, in the order of the cluster
  record. With \<open>k\<close> samples the haplotype \<open>h < 2 * k\<close> is the one of sample \<open>h mod k\<close> on
  side \<open>h div k\<close>, and its identity is written index, colon, side. A report line is its
  tokens, each followed by one space, and a line feed.
\<close>

definition candidate_alleles :: "nat list \<Rightarrow> nat list" where
  "candidate_alleles x = filter (\<lambda>a. minpartsize \<le> x ! a) [0..<length x]"

definition carriers :: "nat list \<Rightarrow> nat list \<Rightarrow> nat \<Rightarrow> nat \<Rightarrow> nat list" where
  "carriers valleles oclust j a =
     filter (\<lambda>h. oclust ! h = j \<and> valleles ! h = a) [0..<length oclust]"

definition identity_token :: "nat \<Rightarrow> nat \<Rightarrow> string" where
  "identity_token k h = str_nat (h mod k) @ '':'' @ str_nat (h div k)"

definition report_tokens :: "int \<Rightarrow> nat \<Rightarrow> nat list \<Rightarrow> nat list \<Rightarrow> string list" where
  "report_tokens pos k s0 s1 =
     [str_int pos, str_nat (length s0), str_nat (length s1)] @ map (identity_token k) (s0 @ s1)"

definition token_line :: "string list \<Rightarrow> string" where
  "token_line ts = concat (map (\<lambda>t. t @ '' '') ts) @ [CHR 0x0A]"

text \<open>Reading a line back: \<^verbatim>\<open>line.split()\<close> cuts a string at every run of white space and
  gives the pieces that are not empty.\<close>

definition is_space :: "char \<Rightarrow> bool" where
  "is_space c = (c \<in> set [CHR '' '', CHR 0x09, CHR 0x0A, CHR 0x0B, CHR 0x0C, CHR 0x0D])"

fun split_ws :: "string \<Rightarrow> string \<Rightarrow> string list" where
  "split_ws acc [] = (if acc = [] then [] else [rev acc])"
| "split_ws acc (c # cs) =
     (if is_space c then (if acc = [] then split_ws [] cs else rev acc # split_ws [] cs)
      else split_ws (c # acc) cs)"

definition py_split :: "string \<Rightarrow> string list" where
  "py_split s = split_ws [] s"

text \<open>What a run shows: the output, the diagnostics and the deletion counter; and one
  entry of the histogram.\<close>

definition outcome :: "error + state \<Rightarrow> error + string \<times> string \<times> nat" where
  "outcome r = map_sum id (\<lambda>s. (stdout s, stderr s, ndel s)) r"

definition histogram_at :: "nat \<Rightarrow> error + state \<Rightarrow> error + nat option" where
  "histogram_at k r = map_sum id (\<lambda>s. acclustsizes s k) r"

section \<open>Example inputs\<close>

text \<open>
  Six samples. The haplotypes 0 to 5 (the first haplotype of every sample) form the
  cluster 0; in it three carry the allele 0 and two the allele 1, all in homozygous
  samples, and the last carries the allele 2 in a heterozygous sample.
\<close>

definition six_c100 :: crec where
  "six_c100 = \<lparr>cpos = 100, cgt = [(0, 1), (0, 1), (0, 1), (0, 2), (0, 2), (0, 2)]\<rparr>"

definition six_c200 :: crec where
  "six_c200 = \<lparr>cpos = 200, cgt = [(0, 1), (0, 1), (0, 1), (0, 2), (0, 2), (0, 2)]\<rparr>"

definition six_v :: vrec where
  "six_v = \<lparr>vpos = 150, vgt = [(0, 0), (0, 0), (0, 0), (1, 1), (1, 1), (2, 0)]\<rparr>"

definition six_mono :: vrec where
  "six_mono = \<lparr>vpos = 150, vgt = [(1, 1), (1, 1), (1, 1), (1, 1), (1, 1), (1, 1)]\<rparr>"

definition six_cfg :: config where
  "six_cfg = \<lparr>c_nindiv = 6, c_nhaps = 12, c_minaf = fl (1 / 10)\<rparr>"

definition six_st :: state where
  "six_st = initial_state six_c100 [six_c200]"





definition ten_v :: vrec where
  "ten_v = \<lparr>vpos = 150, vgt = [(1, 0), (1, 0), (0, 0), (0, 0), (0, 0), (0, 0), (0, 0),
                                (0, 0), (0, 0), (0, 0)]\<rparr>"

definition ten_cfg :: config where
  "ten_cfg = \<lparr>c_nindiv = 10, c_nhaps = 20, c_minaf = fl (1 / 10)\<rparr>"

text \<open>
  The six samples again, with the cluster records \<open>six_c100\<close> and \<open>six_c200\<close>: once with
  every sample homozygous, and once with two haplotypes of each of the alleles 0, 1 and
  2 in the cluster 0. The last configuration asks for a minimum frequency of 0.3.
\<close>

definition six_homo :: vrec where
  "six_homo = \<lparr>vpos = 150, vgt = [(0, 0), (0, 0), (0, 0), (1, 1), (1, 1), (1, 1)]\<rparr>"

definition six_three :: vrec where
  "six_three = \<lparr>vpos = 150, vgt = [(0, 0), (0, 1), (1, 1), (1, 0), (2, 2), (2, 0)]\<rparr>"

definition six_strict_cfg :: config where
  "six_strict_cfg = \<lparr>c_nindiv = 6, c_nhaps = 12, c_minaf = fl (3 / 10)\<rparr>"

section \<open>Properties of the synchronizer\<close>

lemma synchronize_fields:
  "synchronize pos st = (st', othis) \<Longrightarrow>
     ndel st' = ndel st \<and> acclustsizes st' = acclustsizes st \<and>
     stdout st' = stdout st \<and> stderr st' = stderr st"
  by (auto simp: synchronize_def split: prod.splits)

lemma synchronize_closest:
  "synchronize pos st = (st', othis) \<Longrightarrow> othis = closest pos (oprev st') (onew st')"
  by (auto simp: synchronize_def split: prod.splits)

text \<open>
  Claim C2. For a variant position, the record chosen is one of the two buffered records
  (previous, current), its distance to the position is the smaller of the two
  distances, and when the two are at the same distance it is the previous record.
\<close>

theorem closest_min_distance:
  assumes "synchronize pos st = (st', othis)"
  shows "(othis = oprev st' \<or> othis = onew st') \<and>
         \<bar>cpos othis - pos\<bar> \<le> \<bar>cpos (oprev st') - pos\<bar> \<and>
         \<bar>cpos othis - pos\<bar> \<le> \<bar>cpos (onew st') - pos\<bar> \<and>
         (\<bar>cpos (oprev st') - pos\<bar> = \<bar>cpos (onew st') - pos\<bar> \<longrightarrow> othis = oprev st')"
proof -
  have "othis = closest pos (oprev st') (onew st')"
    using assms by (rule synchronize_closest)
  then show ?thesis
    by (simp add: closest_def)
qed

text \<open>The records at 100 and 200 are both 50 away from the variant at 150: the one at
  100, read first, is chosen.\<close>

theorem closest_min_distance_witness:
  "synchronize 150 six_st = (six_st\<lparr>onew := six_c200, omibdfile := []\<rparr>, six_c100) \<and>
   \<bar>cpos six_c100 - 150\<bar> = \<bar>cpos six_c200 - 150\<bar> \<and> six_c100 \<noteq> six_c200"
proof -
  have h: "synchronize 150 six_st = (six_st\<lparr>onew := six_c200, omibdfile := []\<rparr>, six_c100)"
    by (simp add: synchronize_def closest_def six_st_def initial_state_def
        six_c100_def six_c200_def)
  from closest_min_distance [OF h] h show ?thesis
    by (simp add: six_st_def initial_state_def six_c100_def six_c200_def)
qed







section \<open>Properties of the frequency filter\<close>

subsection \<open>Rounding\<close>

lemma round_half_even_ge: "of_int k \<le> x \<Longrightarrow> k \<le> round_half_even x"
proof -
  assume "of_int k \<le> x"
  then have "k \<le> \<lfloor>x\<rfloor>" by (simp add: le_floor_iff)
  moreover have "\<lfloor>x\<rfloor> \<le> round_half_even x"
    by (simp add: round_half_even_def Let_def)
  ultimately show ?thesis by linarith
qed

lemma round_half_even_le: "x \<le> of_int k \<Longrightarrow> round_half_even x \<le> k"
proof -
  assume a: "x \<le> of_int k"
  have f: "\<lfloor>x\<rfloor> \<le> k" using a by (simp add: floor_le_iff)
  show ?thesis
  proof (cases "x = of_int \<lfloor>x\<rfloor>")
    case True
    then have "round_half_even x = \<lfloor>x\<rfloor>" by (simp add: round_half_even_def Let_def)
    with f show ?thesis by simp
  next
    case False
    then have "x < of_int k" using a f
      by (metis floor_of_int order_le_less)
    then have "\<lfloor>x\<rfloor> < k" by (simp add: floor_less_iff)
    moreover have "round_half_even x \<le> \<lfloor>x\<rfloor> + 1"
      by (simp add: round_half_even_def Let_def)
    ultimately show ?thesis by linarith
  qed
qed

lemma round_half_even_of_int: "round_half_even (of_int k) = k"
  by (simp add: round_half_even_def)

lemma ilog2_bounds:
  assumes "0 < q"
  shows "2 powi (ilog2 q) \<le> q \<and> q < 2 powi (ilog2 q + 1)"
proof -
  obtain a b where ab: "quotient_of q = (a, b)" by (cases "quotient_of q")
  have b: "0 < b" using ab by (rule quotient_of_denom_pos)
  have q: "q = of_int a / of_int b" using ab by (rule quotient_of_div)
  have a: "0 < a" using assms b q by (simp add: zero_less_divide_iff)
  let ?la = "bitlen a" and ?lb = "bitlen b"
  have la: "1 \<le> ?la" using a by (simp add: bitlen_alt_def)
  have lb: "1 \<le> ?lb" using b by (simp add: bitlen_alt_def)
  have pw: "(2::rat) powi k = of_int (2 ^ nat k)" if "0 \<le> k" for k
    using that by (simp add: power_int_def)
  have a1: "(2::rat) powi (?la - 1) \<le> of_int a"
    using bitlen_bounds [OF a] la by (simp add: pw del: of_int_power)
  have a2: "of_int a < (2::rat) powi ?la"
    using bitlen_bounds [OF a] la by (simp add: pw del: of_int_power)
  have b1: "(2::rat) powi (?lb - 1) \<le> of_int b"
    using bitlen_bounds [OF b] lb by (simp add: pw del: of_int_power)
  have b2: "of_int b < (2::rat) powi ?lb"
    using bitlen_bounds [OF b] lb by (simp add: pw del: of_int_power)
  have bpos: "(0::rat) < of_int b" using b by simp
  have lo: "2 powi (?la - ?lb - 1) \<le> q"
  proof -
    have "(2::rat) powi (?la - ?lb - 1) * of_int b \<le> 2 powi (?la - ?lb - 1) * 2 powi ?lb"
      using b2 by (intro mult_left_mono) simp_all
    also have "\<dots> = 2 powi (?la - 1)"
      by (simp add: power_int_add [symmetric])
    also have "\<dots> \<le> of_int a" by (rule a1)
    finally show ?thesis using bpos by (simp add: q pos_le_divide_eq)
  qed
  have hi: "q < 2 powi (?la - ?lb + 1)"
  proof -
    have "of_int a < (2::rat) powi ?la" by (rule a2)
    also have "\<dots> = 2 powi (?la - ?lb + 1) * 2 powi (?lb - 1)"
      by (simp add: power_int_add [symmetric])
    also have "\<dots> \<le> 2 powi (?la - ?lb + 1) * of_int b"
      using b1 by (intro mult_left_mono) simp_all
    finally show ?thesis using bpos by (simp add: q pos_divide_less_eq)
  qed
  show ?thesis
  proof (cases "q < 2 powi (?la - ?lb)")
    case True
    then have "ilog2 q = ?la - ?lb - 1" by (simp add: ilog2_def ab)
    with lo True show ?thesis by simp
  next
    case False
    then have "ilog2 q = ?la - ?lb" by (simp add: ilog2_def ab)
    with hi False show ?thesis by simp
  qed
qed

lemma fl_pos_eq:
  "0 < q \<Longrightarrow> fl q = of_int (round_half_even (q / 2 powi (ilog2 q - 52))) * 2 powi (ilog2 q - 52)"
  by (simp add: fl_def Let_def)

lemma fl_bounds:
  assumes "0 < q"
  shows "2 powi (ilog2 q) \<le> fl q \<and> fl q \<le> 2 powi (ilog2 q + 1)"
proof -
  let ?e = "ilog2 q"
  let ?s = "(2::rat) powi (?e - 52)"
  have s: "0 < ?s" by simp
  have e1: "(2::rat) powi ?e = of_int (2 ^ 52) * ?s"
    using power_int_add [of "2::rat" 52 "?e - 52"] by simp
  have "?e + 1 = 53 + (?e - 52)" by simp
  then have e2: "(2::rat) powi (?e + 1) = of_int (2 ^ 53) * ?s"
    using power_int_add [of "2::rat" 53 "?e - 52"] by (simp add: add.commute)
  have "of_int (2 ^ 52) \<le> q / ?s"
    using ilog2_bounds [OF assms] s by (simp only: e1 pos_le_divide_eq)
  then have l: "2 ^ 52 \<le> round_half_even (q / ?s)" by (rule round_half_even_ge)
  have "q / ?s \<le> of_int (2 ^ 53)"
    using ilog2_bounds [OF assms] s by (simp only: e2 pos_divide_le_eq less_imp_le)
  then have u: "round_half_even (q / ?s) \<le> 2 ^ 53" by (rule round_half_even_le)
  have "of_int (2 ^ 52) * ?s \<le> of_int (round_half_even (q / ?s)) * ?s"
    using l s by (intro mult_right_mono) (simp_all del: of_int_power of_int_numeral)
  moreover have "of_int (round_half_even (q / ?s)) * ?s \<le> of_int (2 ^ 53) * ?s"
    using u s by (intro mult_right_mono) (simp_all del: of_int_power of_int_numeral)
  ultimately show ?thesis
    by (simp only: fl_pos_eq [OF assms] e1 e2)
qed

lemma fl_zero: "fl 0 = 0"
  by (simp add: fl_def)

lemma fl_nonneg: "0 \<le> q \<Longrightarrow> 0 \<le> fl q"
proof (cases "q = 0")
  case True then show ?thesis by (simp add: fl_zero)
next
  case False
  assume "0 \<le> q"
  with False have q: "0 < q" by simp
  have "(0::rat) \<le> 2 powi (ilog2 q)" by simp
  with fl_bounds [OF q] show ?thesis by linarith
qed

lemma fl_nonpos: "q \<le> 0 \<Longrightarrow> fl q \<le> 0"
proof (cases "q = 0")
  case True then show ?thesis by (simp add: fl_zero)
next
  case False
  assume "q \<le> 0"
  with False have q: "q < 0" by simp
  then have p: "0 < - q" by simp
  have "fl q = - fl (- q)" using q by (simp add: fl_def Let_def)
  with fl_nonneg [of "- q"] p show ?thesis by simp
qed

lemma fl_one: "fl 1 = 1"
  by code_simp

lemma ilog2_less:
  assumes "0 < q" and "q < 2 powi k"
  shows "ilog2 q < k"
proof (rule ccontr)
  assume "\<not> ilog2 q < k"
  then have "(2::rat) powi k \<le> 2 powi (ilog2 q)"
    by (intro power_int_increasing) simp_all
  with ilog2_bounds [OF assms(1)] assms(2) show False by linarith
qed

lemma ilog2_ge:
  assumes "0 < q" and "2 powi k \<le> q"
  shows "k \<le> ilog2 q"
proof (rule ccontr)
  assume "\<not> k \<le> ilog2 q"
  then have "(2::rat) powi (ilog2 q + 1) \<le> 2 powi k"
    by (intro power_int_increasing) simp_all
  with ilog2_bounds [OF assms(1)] assms(2) show False by linarith
qed

lemma fl_le_one:
  assumes "q \<le> 1"
  shows "fl q \<le> 1"
proof -
  consider "q \<le> 0" | "0 < q" "q < 1" | "q = 1" using assms by linarith
  then show ?thesis
  proof cases
    case 1
    with fl_nonpos [of q] show ?thesis by simp
  next
    case 2
    then have "ilog2 q < 0" using ilog2_less [of q 0] by simp
    then have "(2::rat) powi (ilog2 q + 1) \<le> 2 powi 0"
      by (intro power_int_increasing) simp_all
    with fl_bounds [OF 2(1)] show ?thesis by simp
  next
    case 3
    then show ?thesis by (simp add: fl_one)
  qed
qed

lemma fl_ge_pow2:
  assumes "2 powi k \<le> q"
  shows "2 powi k \<le> fl q"
proof -
  have q: "0 < q" using assms by (rule less_le_trans [rotated]) simp
  have "k \<le> ilog2 q" using q assms by (rule ilog2_ge)
  then have "(2::rat) powi k \<le> 2 powi (ilog2 q)"
    by (intro power_int_increasing) simp_all
  with fl_bounds [OF q] show ?thesis by linarith
qed

lemma fl_less_one:
  assumes "q \<le> 1 - 2 powi (- 53)"
  shows "fl q < 1"
proof -
  have "(0::rat) < 2 powi (- 53)" by simp
  then have q1: "q < 1" using assms by linarith
  consider "q \<le> 0" | "0 < q" "ilog2 q < - 1" | "0 < q" "ilog2 q = - 1"
    using q1 ilog2_less [of q 0] by fastforce
  then show ?thesis
  proof cases
    case 1
    with fl_nonpos [of q] show ?thesis by simp
  next
    case 2
    then have "(2::rat) powi (ilog2 q + 1) \<le> 2 powi (- 1)"
      by (intro power_int_increasing) simp_all
    with fl_bounds [OF 2(1)] show ?thesis by (simp add: power_int_def)
  next
    case 3
    let ?s = "(2::rat) powi (- 53)"
    have s: "?s = 1 / 2 ^ 53" by (simp add: power_int_minus inverse_eq_divide)
    have "q / ?s \<le> of_int (2 ^ 53 - 1)"
      using assms by (simp add: s field_simps)
    then have "round_half_even (q / ?s) \<le> 2 ^ 53 - 1" by (rule round_half_even_le)
    then have "(of_int (round_half_even (q / ?s)) :: rat) \<le> of_int (2 ^ 53 - 1)"
      by (simp only: of_int_le_iff)
    then have "(of_int (round_half_even (q / ?s)) :: rat) \<le> 2 ^ 53 - 1"
      by simp
    then have "of_int (round_half_even (q / ?s)) * ?s < 1"
      by (simp add: s field_simps)
    then show ?thesis using 3 by (simp add: fl_pos_eq)
  qed
qed

lemma fl_less_pow2:
  assumes "q \<le> 2 powi m - 2 powi (m - 53)"
  shows "fl q < 2 powi m"
proof -
  have p: "(0::rat) < 2 powi (m - 53)" by simp
  then have qm: "q < 2 powi m" using assms by linarith
  consider "q \<le> 0" | "0 < q" "ilog2 q < m - 1" | "0 < q" "ilog2 q = m - 1"
    using qm ilog2_less [of q m] by fastforce
  then show ?thesis
  proof cases
    case 1
    have "(0::rat) < 2 powi m" by simp
    with fl_nonpos [OF 1] show ?thesis by linarith
  next
    case 2
    then have "(2::rat) powi (ilog2 q + 1) \<le> 2 powi (m - 1)"
      by (intro power_int_increasing) simp_all
    moreover have "(2::rat) powi (m - 1) < 2 powi m"
      by (intro power_int_strict_increasing) simp_all
    ultimately show ?thesis using fl_bounds [OF 2(1)] by linarith
  next
    case 3
    let ?s = "(2::rat) powi (m - 53)"
    have m: "(2::rat) powi m = of_int (2 ^ 53) * ?s"
      using power_int_add [of "2::rat" 53 "m - 53"] by simp
    have "q \<le> (of_int (2 ^ 53) - 1) * ?s"
      using assms unfolding m by (simp add: algebra_simps)
    then have "q / ?s \<le> of_int (2 ^ 53 - 1)"
      using p by (simp add: pos_divide_le_eq)
    then have "round_half_even (q / ?s) \<le> 2 ^ 53 - 1" by (rule round_half_even_le)
    then have "(of_int (round_half_even (q / ?s)) :: rat) \<le> of_int (2 ^ 53 - 1)"
      by (simp only: of_int_le_iff)
    then have "of_int (round_half_even (q / ?s)) * ?s \<le> of_int (2 ^ 53 - 1) * ?s"
      using p by (intro mult_right_mono) simp_all
    also have "\<dots> < of_int (2 ^ 53) * ?s"
      using p by (intro mult_strict_right_mono) simp_all
    finally have "of_int (round_half_even (q / ?s)) * ?s < 2 powi m"
      unfolding m .
    moreover have "ilog2 q - 52 = m - 53" using 3 by simp
    ultimately show ?thesis by (simp only: fl_pos_eq [OF 3(1)])
  qed
qed

lemma fl_less_two:
  assumes "q \<le> 2 - 2 powi (- 52)"
  shows "fl q < 2"
proof -
  have "q \<le> 2 powi 1 - 2 powi (1 - 53)" using assms by simp
  then have "fl q < 2 powi 1" by (rule fl_less_pow2)
  then show ?thesis by simp
qed

lemma fl_of_nat_exact:
  assumes "n < 2 ^ 53"
  shows "fl (of_nat n) = of_nat n"
proof (cases "n = 0")
  case True
  then show ?thesis by (simp add: fl_zero)
next
  case False
  let ?q = "of_nat n :: rat"
  have q: "0 < ?q" using False by simp
  have "?q < of_nat (2 ^ 53)" using assms by (simp only: of_nat_less_iff)
  then have "?q < 2 powi 53" by simp
  then have "ilog2 ?q < 53" using q by (intro ilog2_less)
  then have "ilog2 ?q - 52 = - int (nat (52 - ilog2 ?q))" by simp
  then obtain d :: nat where d: "ilog2 ?q - 52 = - int d" ..
  let ?s = "(2::rat) powi (- int d)"
  have s: "?s = 1 / 2 ^ d" by (simp add: power_int_minus inverse_eq_divide)
  have "?q / ?s = of_int (int n * 2 ^ d)" by (simp add: s)
  then have "round_half_even (?q / ?s) = int n * 2 ^ d"
    by (simp only: round_half_even_of_int)
  then have "of_int (round_half_even (?q / ?s)) * ?s = ?q" by (simp add: s)
  then show ?thesis using q by (simp add: fl_pos_eq d)
qed

subsection \<open>The haplotype identity\<close>

text \<open>
  For a cluster record of \<open>k \<le> 2 ^ 52\<close> samples the floats in the identity of a haplotype
  are exact: \<open>nhaps / 2\<close> is \<open>k\<close>, \<open>i % nindiv\<close> is \<open>i mod k\<close>, and \<open>i / nindiv\<close>
  truncates to \<open>i div k\<close>.
\<close>

lemma str_int_of_nat: "str_int (int n) = str_nat n"
  by (simp add: str_int_def)

lemma floor_fl_quotient:
  assumes "0 < k" and "k \<le> 2 ^ 52" and "h < 2 * k"
  shows "\<lfloor>fl (of_nat h / of_nat k)\<rfloor> = int (h div k) \<and> 0 \<le> fl (of_nat h / of_nat k)"
proof -
  let ?q = "of_nat h / of_nat k :: rat"
  have kpos: "(0::rat) < of_nat k" using assms(1) by simp
  have k52: "(of_nat k :: rat) \<le> 2 ^ 52"
  proof -
    have "(of_nat k :: rat) \<le> of_nat (2 ^ 52)" using assms(2) by (simp only: of_nat_le_iff)
    then show ?thesis by simp
  qed
  have inv: "(2::rat) powi (- 52) \<le> 1 / of_nat k"
  proof -
    have "(1::rat) / 2 ^ 52 \<le> 1 / of_nat k" using kpos k52 by (simp add: frac_le)
    then show ?thesis by (simp add: power_int_minus inverse_eq_divide)
  qed
  have nonneg: "0 \<le> fl ?q" by (intro fl_nonneg) simp
  show ?thesis
  proof (cases "h < k")
    case True
    then have "h + 1 \<le> k" by simp
    then have "(of_nat (h + 1) :: rat) \<le> of_nat k" by (simp only: of_nat_le_iff)
    then have "?q \<le> 1 - 1 / of_nat k" using kpos by (simp add: field_simps)
    moreover have "(2::rat) powi (- 53) \<le> 2 powi (- 52)"
      by (intro power_int_increasing) simp_all
    ultimately have "?q \<le> 1 - 2 powi (- 53)" using inv by linarith
    then have "fl ?q < 1" by (rule fl_less_one)
    then have "\<lfloor>fl ?q\<rfloor> = 0" using nonneg by (simp add: floor_eq_iff)
    with True nonneg show ?thesis by simp
  next
    case False
    then have kh: "k \<le> h" by simp
    then have "(of_nat k :: rat) \<le> of_nat h" by (simp only: of_nat_le_iff)
    then have "2 powi 0 \<le> ?q" using kpos by (simp add: pos_le_divide_eq)
    then have l: "1 \<le> fl ?q" using fl_ge_pow2 [of 0 ?q] by simp
    have "h + 1 \<le> 2 * k" using assms(3) by simp
    then have "(of_nat (h + 1) :: rat) \<le> of_nat (2 * k)" by (simp only: of_nat_le_iff)
    then have "?q \<le> 2 - 1 / of_nat k" using kpos by (simp add: field_simps)
    then have "?q \<le> 2 - 2 powi (- 52)" using inv by linarith
    then have u: "fl ?q < 2" by (rule fl_less_two)
    have "\<lfloor>fl ?q\<rfloor> = 1" using l u by (simp add: floor_eq_iff)
    moreover have "h div k = 1"
      using kh assms(1,3) by (simp add: div_nat_eqI)
    ultimately show ?thesis using nonneg by simp
  qed
qed

lemma py_fmod_of_nat:
  assumes "0 < k"
  shows "py_fmod (of_nat h) (of_nat k) = of_nat (h mod k)"
proof -
  have "\<lfloor>(of_nat h :: rat) / of_nat k\<rfloor> = int (h div k)"
    by (simp add: floor_divide_of_nat_eq)
  then have "py_fmod (of_nat h) (of_nat k) = (of_nat h :: rat) - of_nat (h div k) * of_nat k"
    by (simp add: py_fmod_def)
  also have "\<dots> = of_nat (h - h div k * k)"
    by (simp add: of_nat_diff)
  also have "h - h div k * k = h mod k"
    by (simp add: minus_div_mult_eq_mod)
  finally show ?thesis .
qed

lemma hap_identity_exact:
  assumes "k \<le> 2 ^ 52" and "h < 2 * k"
  shows "hap_identity (2 * k) h = identity_token k h"
proof -
  have k: "0 < k" using assms(2) by simp
  have "k < 2 ^ 53" using assms(1) by simp
  then have n: "fl (of_nat (2 * k) / 2) = of_nat k"
    using fl_of_nat_exact [of k] by simp
  have "h < 2 ^ 53" using assms by simp
  then have x: "fl (of_nat h) = of_nat h" by (rule fl_of_nat_exact)
  have m: "py_int (py_fmod (of_nat h) (of_nat k)) = int (h mod k)"
    by (simp add: py_fmod_of_nat [OF k] py_int_def)
  have d: "py_int (fl (of_nat h / of_nat k)) = int (h div k)"
    using floor_fl_quotient [OF k assms] by (simp add: py_int_def)
  show ?thesis
    unfolding hap_identity_def n x Let_def m d identity_token_def str_int_of_nat ..
qed

lemma hap_identity_code [code]:
  "hap_identity nhaps i =
     (if even nhaps \<and> int nhaps \<le> 2 ^ 53 \<and> i < nhaps
      then identity_token (nhaps div 2) i
      else (let nindiv = fl (of_nat nhaps / 2); x = fl (of_nat i)
            in str_int (py_int (py_fmod x nindiv)) @ '':'' @
               str_int (py_int (fl (x / nindiv)))))"
proof (cases "even nhaps \<and> int nhaps \<le> 2 ^ 53 \<and> i < nhaps")
  case True
  then obtain k where k: "nhaps = 2 * k" by (auto elim: evenE)
  from True have "int nhaps \<le> int (2 ^ 53)" by simp
  then have "nhaps \<le> 2 ^ 53" by (simp only: of_nat_le_iff)
  with True k have "k \<le> 2 ^ 52" and "i < 2 * k" by simp_all
  then have "hap_identity (2 * k) i = identity_token k i" by (rule hap_identity_exact)
  with True k show ?thesis by simp
next
  case False
  then show ?thesis by (simp only: hap_identity_def if_False)
qed

subsection \<open>Allele frequencies\<close>

lemma mapE_total: "mapE (\<lambda>x. Inr (g x)) xs = Inr (map g xs)"
  by (induction xs) simp_all

lemma py_sum_bool_eq: "py_sum_bool (map (\<lambda>x. x = i) xs) = count_list xs i"
  by (induction xs) (simp_all add: py_sum_bool_def)

lemma py_sum_bool_filter: "py_sum_bool (map P xs) = length (filter P xs)"
  by (induction xs) (simp_all add: py_sum_bool_def)

lemma py_max_Inr:
  assumes "py_max xs = Inr m"
  shows "xs \<noteq> [] \<and> m = Max (set xs)"
proof (cases xs)
  case Nil
  with assms show ?thesis by (simp add: py_max_def)
next
  case (Cons y ys)
  with assms have "m = fold max ys y" by (simp add: py_max_def)
  then show ?thesis using Cons by (simp only: Max.set_eq_fold) simp
qed

lemma py_max_nonempty: "xs \<noteq> [] \<Longrightarrow> py_max xs = Inr (Max (set xs))"
  by (cases xs) (simp_all add: py_max_def Max.set_eq_fold del: set_simps)

lemma allelefreqs_pos:
  assumes "0 < n"
  shows "allelefreqs n valleles k =
           Inr (map (\<lambda>i. fl (of_nat (count_list valleles i) / of_nat n)) [0..<k])"
  using assms by (simp add: allelefreqs_def py_truediv_def py_sum_bool_eq mapE_total)

lemma allelefreqs_zero: "allelefreqs 0 valleles (Suc k) = Inl ZeroDivisionError"
  by (simp add: allelefreqs_def py_truediv_def upt_rec [of 0])

lemma allele_stats_Inr:
  assumes "allele_stats n valleles = Inr (k, fs, maf)"
  shows "valleles \<noteq> [] \<and> 0 < n \<and> k = Max (set valleles) + 1 \<and>
         fs = map (\<lambda>i. fl (of_nat (count_list valleles i) / of_nat n)) [0..<k] \<and>
         maf = fl (1 - Max (set fs))"
proof -
  from assms obtain m where m: "py_max (uniqalleles valleles) = Inr m"
    by (auto simp: allele_stats_def split: sum.splits)
  then have ne: "valleles \<noteq> []" and mm: "m = Max (set valleles)"
    using py_max_Inr [OF m] by (auto simp: uniqalleles_def)
  have n: "0 < n"
  proof (rule ccontr)
    assume "\<not> 0 < n"
    then have "allelefreqs n valleles (Suc m) = Inl ZeroDivisionError"
      by (simp add: allelefreqs_zero)
    with assms m show False by (simp add: allele_stats_def)
  qed
  from assms m have k: "k = m + 1"
    by (auto simp: allele_stats_def Let_def split: sum.splits)
  from assms m have fs: "allelefreqs n valleles (m + 1) = Inr fs"
    by (auto simp: allele_stats_def Let_def split: sum.splits)
  from assms m fs obtain mf where mf: "py_max fs = Inr mf" and maf: "maf = fl (1 - mf)"
    by (auto simp: allele_stats_def Let_def split: sum.splits)
  from fs have fs': "fs = map (\<lambda>i. fl (of_nat (count_list valleles i) / of_nat n)) [0..<k]"
    by (simp add: allelefreqs_pos [OF n] k)
  from py_max_Inr [OF mf] maf have "maf = fl (1 - Max (set fs))" by simp
  with ne n k mm fs' show ?thesis by simp
qed

lemma allele_stats_nonempty:
  assumes "valleles \<noteq> []" and "0 < n"
  shows "\<exists>k fs maf. allele_stats n valleles = Inr (k, fs, maf)"
proof -
  have u: "uniqalleles valleles \<noteq> []" using assms(1) by (simp add: uniqalleles_def)
  let ?k = "Max (set (uniqalleles valleles)) + 1"
  let ?fs = "map (\<lambda>i. fl (of_nat (count_list valleles i) / of_nat n)) [0..<?k]"
  have "?fs \<noteq> []" by simp
  then have "py_max ?fs = Inr (Max (set ?fs))" by (rule py_max_nonempty)
  then show ?thesis
    by (simp add: allele_stats_def py_max_nonempty [OF u] allelefreqs_pos [OF assms(2)]
        del: upt_Suc)
qed

lemma allele_stats_maf_le_one:
  assumes "allele_stats n valleles = Inr (k, fs, maf)"
  shows "maf \<le> 1"
proof -
  note s = allele_stats_Inr [OF assms]
  from s have fs: "fs = map (\<lambda>i. fl (of_nat (count_list valleles i) / of_nat n)) [0..<k]"
    and k: "0 < k" and maf: "maf = fl (1 - Max (set fs))" by simp_all
  have ne: "set fs \<noteq> {}" using fs k by simp
  have "Max (set fs) \<in> set fs" using ne by (intro Max_in) simp_all
  then obtain i where "Max (set fs) = fl (of_nat (count_list valleles i) / of_nat n)"
    using fs by auto
  then have "0 \<le> Max (set fs)" by (simp add: fl_nonneg)
  then show ?thesis unfolding maf by (intro fl_le_one) simp
qed

lemma allele_stats_maf_less_one:
  assumes "allele_stats n valleles = Inr (k, fs, maf)" and "n \<le> 2 ^ 53"
  shows "maf < 1"
proof -
  note s = allele_stats_Inr [OF assms(1)]
  from s have fs: "fs = map (\<lambda>i. fl (of_nat (count_list valleles i) / of_nat n)) [0..<k]"
    and k: "k = Max (set valleles) + 1" and maf: "maf = fl (1 - Max (set fs))"
    and ne: "valleles \<noteq> []" and n: "0 < n" by simp_all
  let ?m = "Max (set valleles)"
  have "?m \<in> set valleles" using ne by (intro Max_in) simp_all
  then have "count_list valleles ?m \<noteq> 0"
    by (simp only: count_list_0_iff) simp
  then have c: "1 \<le> count_list valleles ?m" by simp
  have "(2::rat) powi (- 53) = 1 / 2 ^ 53" by (simp add: power_int_minus inverse_eq_divide)
  also have "\<dots> \<le> 1 / of_nat n"
  proof -
    have "(of_nat n :: rat) \<le> of_nat (2 ^ 53)" using assms(2) by (simp only: of_nat_le_iff)
    then show ?thesis using n by (simp add: frac_le)
  qed
  also have "\<dots> \<le> of_nat (count_list valleles ?m) / of_nat n"
    using c n by (simp add: divide_right_mono)
  finally have "2 powi (- 53) \<le> fl (of_nat (count_list valleles ?m) / of_nat n)"
    by (rule fl_ge_pow2)
  moreover have "fl (of_nat (count_list valleles ?m) / of_nat n) \<in> set fs"
    unfolding fs k set_map by (rule image_eqI [where x = ?m]) simp_all
  then have "fl (of_nat (count_list valleles ?m) / of_nat n) \<le> Max (set fs)"
    by (intro Max_ge) simp_all
  ultimately have "1 - Max (set fs) \<le> 1 - 2 powi (- 53)" by linarith
  then show ?thesis unfolding maf by (rule fl_less_one)
qed

lemma length_remdups_one: "set xs = {a} \<Longrightarrow> length (remdups xs) = 1"
  by (metis One_nat_def card.empty card_insert_disjoint empty_iff finite.emptyI
      length_remdups_card_conv)

text \<open>
  Claim C8. A variant at which every haplotype carries the same allele is skipped: the
  pass ends without an exception, nothing is written to standard output or to standard
  error, and the deletion counter and the histogram are as before.
\<close>

theorem monomorphic_skipped:
  assumes "set (valleles_of v) = {a}"
  shows "\<exists>st'. process_variant cfg v st = Inr st' \<and>
           stdout st' = stdout st \<and> stderr st' = stderr st \<and>
           ndel st' = ndel st \<and> acclustsizes st' = acclustsizes st"
proof -
  obtain st1 othis where s: "synchronize (vpos v) st = (st1, othis)"
    by (cases "synchronize (vpos v) st")
  have "length (uniqalleles (valleles_of v)) = 1"
    using assms by (simp add: uniqalleles_def length_remdups_one)
  then have "process_variant cfg v st = Inr st1"
    by (simp add: process_variant_def s)
  with synchronize_fields [OF s] show ?thesis by simp
qed

theorem monomorphic_skipped_witness:
  "set (valleles_of six_mono) = {1} \<and>
   (\<exists>st'. process_variant six_cfg six_mono six_st = Inr st' \<and>
      stdout st' = stdout six_st \<and> stderr st' = stderr six_st \<and>
      ndel st' = ndel six_st \<and> acclustsizes st' = acclustsizes six_st)"
proof -
  have h: "set (valleles_of six_mono) = {1}"
    by (simp add: valleles_of_def six_mono_def)
  from monomorphic_skipped [OF h] h show ?thesis by blast
qed

text \<open>
  Claim C10. For a variant with at least one haplotype the frequencies are computed
  without an exception and the test \<open>maf > maxmaf\<close> fails: the variant is not skipped by
  the upper bound. The minor allele frequency \<open>1.0 - max(allelefreqs)\<close> is strictly below
  1.0 when there are at most \<open>2 ^ 53\<close> haplotypes, as in any list in memory (beyond
  that a frequency can be so small that the difference rounds to 1.0).
\<close>

theorem max_maf_filter_never_skips:
  assumes "vgt v \<noteq> []" and "length (vgt v) = c_nindiv cfg"
  shows "\<exists>k fs maf. allele_stats (2 * c_nindiv cfg) (valleles_of v) = Inr (k, fs, maf) \<and>
           \<not> maxmaf < maf \<and> (2 * c_nindiv cfg \<le> 2 ^ 53 \<longrightarrow> maf < 1)"
proof -
  have "valleles_of v \<noteq> []" using assms(1) by (simp add: valleles_of_def)
  moreover have "0 < 2 * c_nindiv cfg" using assms by (cases "vgt v") auto
  ultimately obtain k fs maf
    where s: "allele_stats (2 * c_nindiv cfg) (valleles_of v) = Inr (k, fs, maf)"
    using allele_stats_nonempty by blast
  from allele_stats_maf_le_one [OF s] have "\<not> maxmaf < maf" by (simp add: maxmaf_def)
  with s allele_stats_maf_less_one [OF s] show ?thesis by blast
qed

text \<open>Twenty haplotypes, eighteen of them with the allele 0: the computed minor allele
  frequency is below 1.\<close>

theorem max_maf_filter_never_skips_witness:
  "vgt ten_v \<noteq> [] \<and> length (vgt ten_v) = c_nindiv ten_cfg \<and>
   2 * c_nindiv ten_cfg \<le> 2 ^ 53 \<and>
   (\<exists>k fs maf. allele_stats (2 * c_nindiv ten_cfg) (valleles_of ten_v) = Inr (k, fs, maf) \<and>
      maf < 1 \<and> \<not> maxmaf < maf)"
proof -
  have a: "vgt ten_v \<noteq> []" by (simp add: ten_v_def)
  have b: "length (vgt ten_v) = c_nindiv ten_cfg" by (simp add: ten_v_def ten_cfg_def)
  have c: "2 * c_nindiv ten_cfg \<le> 2 ^ 53" by (simp add: ten_cfg_def)
  from max_maf_filter_never_skips [OF a b] a b c show ?thesis by blast
qed

text \<open>
  The frequency filter compares floats. With \<open>maf\<close> the float computed as
  \<open>1.0 - max(allelefreqs)\<close> and \<open>minaf\<close> the float read from the command line, a variant
  that is not monomorphic goes on to the clusters exactly when \<open>minaf \<le> maf\<close>; the
  upper bound \<open>maxmaf\<close> is 1 and cuts nothing; a variant that is skipped changes neither
  the output nor the counters.
\<close>





section \<open>Properties of the count tables\<close>

lemma zero_fold_shape:
  "length (fold (\<lambda>i cs. if P i then map (\<lambda>x. x[i := 0]) cs else cs) [0..<k] cs) = length cs \<and>
   (\<forall>r<length cs.
      length (fold (\<lambda>i cs. if P i then map (\<lambda>x. x[i := 0]) cs else cs) [0..<k] cs ! r) =
      length (cs ! r))"
  by (induction k) simp_all

lemma zero_fold_nth:
  fixes cs :: "nat list list"
  assumes "r < length cs" and "i < length (cs ! r)"
  shows "fold (\<lambda>i cs. if P i then map (\<lambda>x. x[i := 0]) cs else cs) [0..<k] cs ! r ! i =
           (if i < k \<and> P i then 0 else cs ! r ! i)"
proof (induction k)
  case 0
  show ?case by simp
next
  case (Suc k)
  let ?F = "fold (\<lambda>i cs. if P i then map (\<lambda>x. x[i := 0]) cs else cs) [0..<k] cs"
  have l: "r < length ?F" and lr: "i < length (?F ! r)"
    using assms zero_fold_shape [of P k cs] by simp_all
  show ?case
  proof (cases "P k")
    case True
    then have "fold (\<lambda>i cs. if P i then map (\<lambda>x. x[i := 0]) cs else cs) [0..<Suc k] cs ! r ! i
                 = (?F ! r)[k := 0] ! i"
      using l by simp
    also have "\<dots> = (if i = k then 0 else ?F ! r ! i)"
      using lr by (simp add: nth_list_update)
    finally show ?thesis using Suc True by (auto simp: less_Suc_eq)
  next
    case False
    then show ?thesis using Suc by (auto simp: less_Suc_eq)
  qed
qed

lemma remove_rare_shape:
  "length (remove_rare nalleles fs minaf k counts) = length counts \<and>
   (\<forall>r<length counts. length (remove_rare nalleles fs minaf k counts ! r) = length (counts ! r))"
  using zero_fold_shape [of "\<lambda>i. fs ! i < minaf" k counts] by (simp add: remove_rare_def)

lemma compare_clusters_unfold:
  assumes "py_max (oclust_of othis) = Inr mc"
    and "tabulate (c_nhaps cfg) (oclust_of othis) valleles (mc + 1) k = Inr (counts, clustsize)"
  shows "compare_clusters cfg othis pos valleles nalleles k fs st =
           print_gcs (c_nindiv cfg) valleles (oclust_of othis)
             (remove_rare nalleles fs (c_minaf cfg) k counts) pos clustsize
             (if length valleles \<noteq> c_nhaps cfg
              then st\<lparr>stderr := stderr st @ mismatch_msg\<rparr> else st)"
  using assms by (simp add: compare_clusters_def Let_def)

text \<open>
  Claim C5. The table handed to \<open>print_gcs\<close> is the table of counts after the removal of
  rare alleles. In it the count of the allele \<open>i\<close> in the cluster \<open>r\<close> is zero when the
  variant has more than two distinct alleles, more than two alleles have a frequency
  above zero and the frequency of \<open>i\<close> is below \<open>minaf\<close>; otherwise it is the count as
  tabulated.
\<close>

theorem rare_alleles_zeroed:
  assumes "py_max (oclust_of othis) = Inr mc"
    and "tabulate (c_nhaps cfg) (oclust_of othis) valleles (mc + 1) k = Inr (counts, clustsize)"
    and "r < length counts" and "i < length (counts ! r)" and "i < k"
  shows "compare_clusters cfg othis pos valleles nalleles k fs st =
           print_gcs (c_nindiv cfg) valleles (oclust_of othis)
             (remove_rare nalleles fs (c_minaf cfg) k counts) pos clustsize
             (if length valleles \<noteq> c_nhaps cfg
              then st\<lparr>stderr := stderr st @ mismatch_msg\<rparr> else st) \<and>
         remove_rare nalleles fs (c_minaf cfg) k counts ! r ! i =
           (if 2 < nalleles \<and> 2 < py_sum_bool (map (\<lambda>x. 0 < x) fs) \<and> fs ! i < c_minaf cfg
            then 0 else counts ! r ! i)"
proof -
  have "remove_rare nalleles fs (c_minaf cfg) k counts ! r ! i =
           (if 2 < nalleles \<and> 2 < py_sum_bool (map (\<lambda>x. 0 < x) fs) \<and> fs ! i < c_minaf cfg
            then 0 else counts ! r ! i)"
    using zero_fold_nth [OF assms(3,4), of "\<lambda>i. fs ! i < c_minaf cfg" k] assms(5)
    by (simp add: remove_rare_def)
  with compare_clusters_unfold [OF assms(1,2)] show ?thesis by simp
qed

text \<open>With a minimum of 0.3 the allele 2, of frequency 1/4, is removed from the cluster 0,
  which had two haplotypes with it.\<close>

theorem rare_alleles_zeroed_witness:
  "py_max (oclust_of six_c100) = Inr 2 \<and>
   tabulate (c_nhaps six_strict_cfg) (oclust_of six_c100) (valleles_of six_three) (2 + 1) 3 =
     Inr ([[2, 2, 2], [1, 2, 0], [2, 0, 1]], [6, 3, 3]) \<and>
   allele_stats 12 (valleles_of six_three) =
     Inr (3, [fl (5 / 12), fl (1 / 3), fl (1 / 4)], fl (1 - fl (5 / 12))) \<and>
   remove_rare 3 [fl (5 / 12), fl (1 / 3), fl (1 / 4)] (c_minaf six_strict_cfg) 3
     [[2, 2, 2], [1, 2, 0], [2, 0, 1]] ! 0 ! 2 = 0 \<and>
   [[2, 2, 2], [1, 2, 0], [2, 0, 1]] ! 0 ! 2 = (2::nat)"
proof -
  let ?fs = "[fl (5 / 12), fl (1 / 3), fl (1 / 4)]"
  let ?counts = "[[2, 2, 2], [1, 2, 0], [2, 0, 1 :: nat]]"
  have a: "py_max (oclust_of six_c100) = Inr 2" by code_simp
  have b: "tabulate (c_nhaps six_strict_cfg) (oclust_of six_c100) (valleles_of six_three)
             (2 + 1) 3 = Inr (?counts, [6, 3, 3])" by code_simp
  have c: "0 < length ?counts" by simp
  have d: "2 < length (?counts ! 0)" by simp
  have e: "(2::nat) < 3" by simp
  have s: "allele_stats 12 (valleles_of six_three) = Inr (3, ?fs, fl (1 - fl (5 / 12)))"
    by code_simp
  have cond: "2 < (3::nat) \<and> 2 < py_sum_bool (map (\<lambda>x. 0 < x) ?fs) \<and>
              ?fs ! 2 < c_minaf six_strict_cfg" by code_simp
  have "remove_rare 3 ?fs (c_minaf six_strict_cfg) 3 ?counts ! 0 ! 2 =
          (if 2 < (3::nat) \<and> 2 < py_sum_bool (map (\<lambda>x. 0 < x) ?fs) \<and>
              ?fs ! 2 < c_minaf six_strict_cfg then 0 else ?counts ! 0 ! 2)"
    using rare_alleles_zeroed [OF a b c d e, of 150 3 ?fs six_st] by (rule conjunct2)
  then have "remove_rare 3 ?fs (c_minaf six_strict_cfg) 3 ?counts ! 0 ! 2 = 0"
    using cond by (simp only: if_True simp_thms)
  moreover have "?counts ! 0 ! 2 = (2::nat)" by simp
  ultimately show ?thesis using a b s by blast
qed

section \<open>Properties of the report\<close>

subsection \<open>The loop of \<open>print_gcs\<close>\<close>

text \<open>The loop body runs for the cluster ids below the three lengths, in ascending order.\<close>

lemma print_gcs_clusters:
  "print_gcs nindiv valleles oclust counts pos clustsize st =
     foldE (gcs_cluster nindiv valleles oclust pos)
       (map (\<lambda>j. (j, counts ! j, clustsize ! j))
          [0..<min (length oclust) (min (length counts) (length clustsize))]) st"
proof -
  have "zip [0..<length oclust] (zip counts clustsize) =
          map (\<lambda>j. (j, counts ! j, clustsize ! j))
            [0..<min (length oclust) (min (length counts) (length clustsize))]"
    by (rule nth_equalityI) simp_all
  then show ?thesis by (simp only: print_gcs_def)
qed

lemma mapE_Inr_iff: "mapE f xs = Inr ys \<longleftrightarrow> list_all2 (\<lambda>x y. f x = Inr y) xs ys"
proof (induction xs arbitrary: ys)
  case Nil
  show ?case by auto
next
  case (Cons x xs)
  show ?case
  proof (cases "f x")
    case (Inl e)
    then show ?thesis by (auto simp: list_all2_Cons1)
  next
    case (Inr y)
    then show ?thesis using Cons [symmetric]
      by (cases "mapE f xs") (auto simp: list_all2_Cons1)
  qed
qed

lemma mapE_Inr_map:
  assumes "\<forall>x\<in>set xs. f x = Inr (g x)"
  shows "mapE f xs = Inr (map g xs)"
  using assms by (simp add: mapE_Inr_iff list_all2_conv_all_nth)

lemma nth_filter_indices:
  "map (\<lambda>i. xs ! i) (filter (\<lambda>i. P (xs ! i)) [0..<length xs]) = filter P xs"
proof -
  have "filter P xs = filter P (map (\<lambda>i. xs ! i) [0..<length xs])"
    by (simp add: map_nth)
  also have "\<dots> = map (\<lambda>i. xs ! i) (filter (\<lambda>i. P (xs ! i)) [0..<length xs])"
    by (simp add: filter_map comp_def)
  finally show ?thesis by simp
qed

lemma subcluster_filter: "subcluster valleles hs a = filter (\<lambda>h. valleles ! h = a) hs"
  using nth_filter_indices [of hs "\<lambda>h. valleles ! h = a"] by (simp add: subcluster_def)

lemma subcluster_carriers:
  "subcluster valleles (hapindices oclust j) a = carriers valleles oclust j a"
  by (simp add: subcluster_filter hapindices_def carriers_def conj_commute)

lemma whichalleles_candidates: "whichalleles x = candidate_alleles x"
proof -
  have "(1 < x ! i) = (minpartsize \<le> x ! i)" for i
    by (auto simp: minpartsize_def)
  then show ?thesis by (simp add: whichalleles_def candidate_alleles_def)
qed

lemma length_candidate_alleles:
  "length (candidate_alleles x) = py_sum_bool (map (\<lambda>y. minpartsize \<le> y) x)"
proof -
  have "length (candidate_alleles x) =
          length (map (\<lambda>i. x ! i) (filter (\<lambda>i. minpartsize \<le> x ! i) [0..<length x]))"
    by (simp add: candidate_alleles_def)
  also have "\<dots> = length (filter (\<lambda>y. minpartsize \<le> y) x)"
    by (simp only: nth_filter_indices)
  finally show ?thesis by (simp add: py_sum_bool_filter)
qed

lemma gcs_cluster_small:
  "z < minclustsize \<Longrightarrow> gcs_cluster nindiv valleles oclust pos (j, x, z) st = Inr st"
  by (simp add: gcs_cluster_def)

lemma gcs_cluster_unmixed:
  "py_sum_bool (map (\<lambda>y. minpartsize \<le> y) x) \<le> 1 \<Longrightarrow>
   gcs_cluster nindiv valleles oclust pos (j, x, z) st = Inr st"
  by (simp add: gcs_cluster_def Let_def)

lemma gcs_cluster_error:
  assumes "minclustsize \<le> z" and "2 \<le> py_sum_bool (map (\<lambda>y. minpartsize \<le> y) x)"
    and "mapE (is_homozygous nindiv valleles) (hapindices oclust j) = Inl e"
  shows "gcs_cluster nindiv valleles oclust pos (j, x, z) st = Inl e"
  using assms by (simp add: gcs_cluster_def Let_def)

lemma gcs_cluster_deletion:
  assumes "minclustsize \<le> z" and "2 \<le> py_sum_bool (map (\<lambda>y. minpartsize \<le> y) x)"
    and "mapE (is_homozygous nindiv valleles) (hapindices oclust j) = Inr homozygous"
    and "py_all homozygous"
  shows "gcs_cluster nindiv valleles oclust pos (j, x, z) st =
           Inr (st\<lparr>stderr := (if 2 < py_sum_bool (map (\<lambda>y. minpartsize \<le> y) x)
                               then stderr st @ more_than_two_msg pos else stderr st),
                    ndel := ndel st + 1\<rparr>)"
  using assms by (simp add: gcs_cluster_def Let_def deletion_def)

lemma gcs_cluster_report:
  assumes "minclustsize \<le> z" and "2 \<le> py_sum_bool (map (\<lambda>y. minpartsize \<le> y) x)"
    and "mapE (is_homozygous nindiv valleles) (hapindices oclust j) = Inr homozygous"
    and "\<not> py_all homozygous"
  shows "gcs_cluster nindiv valleles oclust pos (j, x, z) st =
           Inr (st\<lparr>stderr := (if 2 < py_sum_bool (map (\<lambda>y. minpartsize \<le> y) x)
                               then stderr st @ more_than_two_msg pos else stderr st),
                    stdout := stdout st @
                      report_line pos (length oclust)
                        (carriers valleles oclust j (candidate_alleles x ! 0))
                        (carriers valleles oclust j (candidate_alleles x ! 1)),
                    acclustsizes :=
                      counter_update (acclustsizes st) (length (hapindices oclust j))\<rparr>)"
  using assms
  by (simp add: gcs_cluster_def Let_def subcluster_carriers whichalleles_candidates)

lemma report_line_nonempty: "report_line pos n h0 h1 \<noteq> []"
  by (simp add: report_line_def)

text \<open>The four ways the loop body can end.\<close>

lemma gcs_cluster_cases:
  obtains (skip) "gcs_cluster nindiv valleles oclust pos (j, x, z) st = Inr st"
      and "z < minclustsize \<or> py_sum_bool (map (\<lambda>y. minpartsize \<le> y) x) \<le> 1"
  | (error) e where "gcs_cluster nindiv valleles oclust pos (j, x, z) st = Inl e"
  | (deletion) homozygous where "minclustsize \<le> z"
      and "2 \<le> py_sum_bool (map (\<lambda>y. minpartsize \<le> y) x)"
      and "mapE (is_homozygous nindiv valleles) (hapindices oclust j) = Inr homozygous"
      and "py_all homozygous"
  | (report) homozygous where "minclustsize \<le> z"
      and "2 \<le> py_sum_bool (map (\<lambda>y. minpartsize \<le> y) x)"
      and "mapE (is_homozygous nindiv valleles) (hapindices oclust j) = Inr homozygous"
      and "\<not> py_all homozygous"
proof (cases "z < minclustsize \<or> py_sum_bool (map (\<lambda>y. minpartsize \<le> y) x) \<le> 1")
  case True
  then have g: "gcs_cluster nindiv valleles oclust pos (j, x, z) st = Inr st"
    using gcs_cluster_small gcs_cluster_unmixed by blast
  from g True show ?thesis by (rule skip)
next
  case False
  then have z: "minclustsize \<le> z" and c: "2 \<le> py_sum_bool (map (\<lambda>y. minpartsize \<le> y) x)"
    by simp_all
  show ?thesis
  proof (cases "mapE (is_homozygous nindiv valleles) (hapindices oclust j)")
    case (Inl e)
    from gcs_cluster_error [OF z c Inl] show ?thesis by (rule error)
  next
    case (Inr homozygous)
    show ?thesis
    proof (cases "py_all homozygous")
      case True
      from z c Inr True show ?thesis by (rule deletion)
    next
      case False
      from z c Inr False show ?thesis by (rule report)
    qed
  qed
qed

lemma gcs_cluster_reported:
  assumes "gcs_cluster nindiv valleles oclust pos (j, x, z) st = Inr st'"
    and "stdout st' \<noteq> stdout st"
  shows "2 \<le> py_sum_bool (map (\<lambda>y. minpartsize \<le> y) x) \<and>
         st' = st\<lparr>stderr := (if 2 < py_sum_bool (map (\<lambda>y. minpartsize \<le> y) x)
                               then stderr st @ more_than_two_msg pos else stderr st),
                  stdout := stdout st @
                    report_line pos (length oclust)
                      (carriers valleles oclust j (candidate_alleles x ! 0))
                      (carriers valleles oclust j (candidate_alleles x ! 1)),
                  acclustsizes :=
                    counter_update (acclustsizes st) (length (hapindices oclust j))\<rparr>"
proof (cases rule: gcs_cluster_cases [of nindiv valleles oclust pos j x z st])
  case skip
  with assms show ?thesis by simp
next
  case (error e)
  with assms show ?thesis by simp
next
  case (deletion homozygous)
  from gcs_cluster_deletion [OF deletion, of pos st] assms show ?thesis by auto
next
  case (report homozygous)
  from gcs_cluster_report [OF report, of pos st] assms(1) report(2)
  show ?thesis by simp
qed

lemma py_all_map_True: "py_all (map (\<lambda>_. True) xs)"
  by (simp add: py_all_def list_all_iff)

lemma length_three_way:
  assumes "a \<noteq> b"
  shows "length xs = length (filter (\<lambda>h. f h = a) xs) + length (filter (\<lambda>h. f h = b) xs) +
           length (filter (\<lambda>h. f h \<noteq> a \<and> f h \<noteq> b) xs)"
  using assms by (induction xs) auto

lemma length_carriers_three_way:
  assumes "a \<noteq> b"
  shows "length (hapindices oclust j) =
           length (carriers valleles oclust j a) + length (carriers valleles oclust j b) +
           length (filter (\<lambda>h. valleles ! h \<noteq> a \<and> valleles ! h \<noteq> b) (hapindices oclust j))"
  using length_three_way [OF assms, of "hapindices oclust j" "\<lambda>h. valleles ! h"]
  by (simp add: subcluster_carriers [symmetric] subcluster_filter)

lemma candidate_alleles_sorted: "sorted (candidate_alleles x) \<and> distinct (candidate_alleles x)"
  by (simp add: candidate_alleles_def sorted_wrt_filter)

lemma first_two_of_sorted:
  fixes xs :: "nat list"
  assumes "sorted xs" and "distinct xs" and "2 \<le> length xs"
  shows "xs ! 0 \<in> set xs \<and> xs ! 1 \<in> set xs \<and> xs ! 0 < xs ! 1 \<and>
         (\<forall>c\<in>set xs. c = xs ! 0 \<or> xs ! 1 \<le> c)"
proof -
  from assms(3) obtain a b rest where xs: "xs = a # b # rest"
    by (cases xs; cases "tl xs") auto
  with assms(1,2) show ?thesis by auto
qed

lemma candidate_alleles_first_two:
  assumes "2 \<le> py_sum_bool (map (\<lambda>y. minpartsize \<le> y) x)"
  shows "candidate_alleles x ! 0 \<in> set (candidate_alleles x) \<and>
         candidate_alleles x ! 1 \<in> set (candidate_alleles x) \<and>
         candidate_alleles x ! 0 < candidate_alleles x ! 1 \<and>
         (\<forall>c\<in>set (candidate_alleles x). c = candidate_alleles x ! 0 \<or> candidate_alleles x ! 1 \<le> c)"
  using candidate_alleles_sorted [of x] assms
  by (intro first_two_of_sorted) (simp_all add: length_candidate_alleles)

lemma is_homozygous_defined:
  assumes "length valleles = 2 * nindiv" and "h < length valleles"
  shows "is_homozygous nindiv valleles h =
           Inr (valleles ! h = valleles ! (if h < nindiv then h + nindiv else h - nindiv))"
  using assms by (auto simp: is_homozygous_def Let_def)

lemma hapindices_less: "h \<in> set (hapindices oclust j) \<Longrightarrow> h < length oclust"
  by (simp add: hapindices_def)

lemma homozygous_list_defined:
  assumes "length valleles = 2 * nindiv" and "length oclust \<le> length valleles"
  shows "\<exists>homozygous. mapE (is_homozygous nindiv valleles) (hapindices oclust j) = Inr homozygous"
proof -
  have "\<forall>h\<in>set (hapindices oclust j). is_homozygous nindiv valleles h =
          Inr (valleles ! h = valleles ! (if h < nindiv then h + nindiv else h - nindiv))"
  proof
    fix h
    assume "h \<in> set (hapindices oclust j)"
    then have "h < length oclust" by (rule hapindices_less)
    then have "h < length valleles" using assms(2) by simp
    with assms(1) show "is_homozygous nindiv valleles h =
          Inr (valleles ! h = valleles ! (if h < nindiv then h + nindiv else h - nindiv))"
      by (rule is_homozygous_defined)
  qed
  then have "mapE (is_homozygous nindiv valleles) (hapindices oclust j) =
          Inr (map (\<lambda>h. valleles ! h = valleles ! (if h < nindiv then h + nindiv else h - nindiv))
                 (hapindices oclust j))"
    by (rule mapE_Inr_map)
  then show ?thesis ..
qed

subsection \<open>The examples, run\<close>

lemma six_st_fields: "stdout six_st = [] \<and> stderr six_st = [] \<and> ndel six_st = 0 \<and> acclustsizes six_st = Map.empty"
  by (simp add: six_st_def initial_state_def)

lemma six_v_run:
  "outcome (process_variant six_cfg six_v six_st) =
     Inr (''150 3 2 0:0 1:0 2:0 3:0 4:0 \<newline>'', [], 0) \<and>
   histogram_at (3 + 2) (process_variant six_cfg six_v six_st) = Inr None \<and>
   histogram_at 6 (process_variant six_cfg six_v six_st) = Inr (Some 1)"
  by code_simp

lemma six_v_cluster:
  "allele_stats 12 (valleles_of six_v) =
     Inr (3, [fl (7 / 12), fl (1 / 3), fl (1 / 12)], fl (1 - fl (7 / 12))) \<and>
   c_minaf six_cfg \<le> fl (1 - fl (7 / 12)) \<and>
   tabulate 12 (oclust_of six_c100) (valleles_of six_v) 3 3 =
     Inr ([[3, 2, 1], [3, 0, 0], [1, 2, 0]], [6, 3, 3]) \<and>
   remove_rare 3 [fl (7 / 12), fl (1 / 3), fl (1 / 12)] (c_minaf six_cfg) 3
     [[3, 2, 1], [3, 0, 0], [1, 2, 0]] = [[3, 2, 0], [3, 0, 0], [1, 2, 0]] \<and>
   minclustsize \<le> 6 \<and>
   candidate_alleles [3, 2, 0] = [0, 1] \<and>
   carriers (valleles_of six_v) (oclust_of six_c100) 0 0 = [0, 1, 2] \<and>
   carriers (valleles_of six_v) (oclust_of six_c100) 0 1 = [3, 4] \<and>
   map (is_homozygous 6 (valleles_of six_v)) [0, 1, 2, 3, 4] =
     [Inr True, Inr True, Inr True, Inr True, Inr True]"
  by code_simp

lemma six_v_cluster_reported:
  "\<exists>st'. gcs_cluster 6 (valleles_of six_v) (oclust_of six_c100) 150 (0, [3, 2, 0], 6) six_st =
           Inr st' \<and> stdout st' \<noteq> stdout six_st"
proof -
  have z: "minclustsize \<le> 6" by (simp add: minclustsize_def)
  have c: "2 \<le> py_sum_bool (map (\<lambda>y. minpartsize \<le> y) [3, 2, 0])" by code_simp
  have m: "mapE (is_homozygous 6 (valleles_of six_v)) (hapindices (oclust_of six_c100) 0) =
             Inr [True, True, True, True, True, False]" by code_simp
  have n: "\<not> py_all [True, True, True, True, True, False]" by code_simp
  from gcs_cluster_report [OF z c m n, of 150 six_st] show ?thesis
    by (simp add: report_line_nonempty)
qed

subsection \<open>Deletions\<close>

text \<open>
  Claim C1 (as amended). For a cluster of size at least 4 with at least two candidate
  alleles: if every haplotype of the cluster, whatever allele it carries, is in a
  homozygous sample, the deletion counter goes up by exactly one and nothing is written
  to standard output, nor is the histogram changed.
\<close>

theorem all_homozygous_is_deletion:
  assumes "minclustsize \<le> z"
    and "2 \<le> py_sum_bool (map (\<lambda>y. minpartsize \<le> y) x)"
    and "\<forall>h\<in>set (hapindices oclust j). is_homozygous nindiv valleles h = Inr True"
  shows "\<exists>st'. gcs_cluster nindiv valleles oclust pos (j, x, z) st = Inr st' \<and>
           ndel st' = ndel st + 1 \<and> stdout st' = stdout st \<and>
           acclustsizes st' = acclustsizes st"
proof -
  have "mapE (is_homozygous nindiv valleles) (hapindices oclust j) =
          Inr (map (\<lambda>_. True) (hapindices oclust j))"
    using assms(3) by (rule mapE_Inr_map)
  from gcs_cluster_deletion [OF assms(1,2) this py_all_map_True]
  show ?thesis by simp
qed

theorem all_homozygous_is_deletion_witness:
  "minclustsize \<le> 6 \<and> 2 \<le> py_sum_bool (map (\<lambda>y. minpartsize \<le> y) [3, 3]) \<and>
   map (is_homozygous 6 (valleles_of six_homo)) (hapindices (oclust_of six_c100) 0) =
     [Inr True, Inr True, Inr True, Inr True, Inr True, Inr True] \<and>
   (\<exists>st'. gcs_cluster 6 (valleles_of six_homo) (oclust_of six_c100) 150 (0, [3, 3], 6) six_st =
            Inr st' \<and> ndel st' = 1 \<and> stdout st' = [])"
proof -
  have m: "map (is_homozygous 6 (valleles_of six_homo)) (hapindices (oclust_of six_c100) 0) =
     [Inr True, Inr True, Inr True, Inr True, Inr True, Inr True]" by code_simp
  have a: "minclustsize \<le> 6" by (simp add: minclustsize_def)
  have b: "2 \<le> py_sum_bool (map (\<lambda>y. minpartsize \<le> y) [3, 3])" by code_simp
  have c: "\<forall>h\<in>set (hapindices (oclust_of six_c100) 0).
      is_homozygous 6 (valleles_of six_homo) h = Inr True" by code_simp
  from all_homozygous_is_deletion [OF a b c, of 150 six_st] obtain st'
    where "gcs_cluster 6 (valleles_of six_homo) (oclust_of six_c100) 150 (0, [3, 3], 6) six_st =
            Inr st'" and "ndel st' = ndel six_st + 1" and "stdout st' = stdout six_st"
    by blast
  then have "\<exists>st'. gcs_cluster 6 (valleles_of six_homo) (oclust_of six_c100) 150 (0, [3, 3], 6) six_st =
            Inr st' \<and> ndel st' = 1 \<and> stdout st' = []"
    using six_st_fields by simp
  with a b m show ?thesis by blast
qed

text \<open>
  Claim C1 as it is stated fails. In the cluster 0 of \<open>six_v\<close> the candidate alleles are 0
  and 1; their carriers, the haplotypes 0 to 4, are all in homozygous samples; the
  sixth haplotype of the cluster carries the allele 2 in a heterozygous sample. The
  program prints a report for the cluster and leaves the deletion counter at zero.
\<close>

theorem homozygous_carriers_counterexample:
  "tabulate 12 (oclust_of six_c100) (valleles_of six_v) 3 3 =
     Inr ([[3, 2, 1], [3, 0, 0], [1, 2, 0]], [6, 3, 3]) \<and>
   remove_rare 3 [fl (7 / 12), fl (1 / 3), fl (1 / 12)] (c_minaf six_cfg) 3
     [[3, 2, 1], [3, 0, 0], [1, 2, 0]] = [[3, 2, 0], [3, 0, 0], [1, 2, 0]] \<and>
   minclustsize \<le> 6 \<and>
   candidate_alleles [3, 2, 0] = [0, 1] \<and>
   carriers (valleles_of six_v) (oclust_of six_c100) 0 0 = [0, 1, 2] \<and>
   carriers (valleles_of six_v) (oclust_of six_c100) 0 1 = [3, 4] \<and>
   map (is_homozygous 6 (valleles_of six_v)) [0, 1, 2, 3, 4] =
     [Inr True, Inr True, Inr True, Inr True, Inr True] \<and>
   outcome (process_variant six_cfg six_v six_st) =
     Inr (''150 3 2 0:0 1:0 2:0 3:0 4:0 \<newline>'', [], 0)"
  using six_v_run six_v_cluster by simp

subsection \<open>The size histogram\<close>

text \<open>
  Claim C3 (as amended). When a report line is written for a cluster, the histogram is
  incremented at the number of haplotypes of the cluster: the sizes of the two reported
  subclusters plus the number of haplotypes of the cluster that carry neither of the
  two reported alleles.
\<close>

theorem histogram_key_is_cluster_size:
  assumes "gcs_cluster nindiv valleles oclust pos (j, x, z) st = Inr st'"
    and "stdout st' \<noteq> stdout st"
  shows "acclustsizes st' = counter_update (acclustsizes st) (length (hapindices oclust j)) \<and>
         length (hapindices oclust j) =
           length (carriers valleles oclust j (candidate_alleles x ! 0)) +
           length (carriers valleles oclust j (candidate_alleles x ! 1)) +
           length (filter (\<lambda>h. valleles ! h \<noteq> candidate_alleles x ! 0 \<and>
                               valleles ! h \<noteq> candidate_alleles x ! 1) (hapindices oclust j)) \<and>
         stdout st' = stdout st @
           report_line pos (length oclust)
             (carriers valleles oclust j (candidate_alleles x ! 0))
             (carriers valleles oclust j (candidate_alleles x ! 1))"
proof -
  note r = gcs_cluster_reported [OF assms]
  from candidate_alleles_first_two [of x] r
  have "candidate_alleles x ! 0 \<noteq> candidate_alleles x ! 1" by simp
  from length_carriers_three_way [OF this, of oclust j valleles] r
  show ?thesis by simp
qed

theorem histogram_key_is_cluster_size_witness:
  "\<exists>st'. gcs_cluster 6 (valleles_of six_v) (oclust_of six_c100) 150 (0, [3, 2, 0], 6) six_st =
           Inr st' \<and> stdout st' \<noteq> stdout six_st \<and>
         acclustsizes st' = counter_update Map.empty 6 \<and>
         length (carriers (valleles_of six_v) (oclust_of six_c100) 0 0) = 3 \<and>
         length (carriers (valleles_of six_v) (oclust_of six_c100) 0 1) = 2"
proof -
  from six_v_cluster_reported obtain st'
    where g: "gcs_cluster 6 (valleles_of six_v) (oclust_of six_c100) 150 (0, [3, 2, 0], 6) six_st =
           Inr st'" and o: "stdout st' \<noteq> stdout six_st" by blast
  have l: "length (hapindices (oclust_of six_c100) 0) = 6" by code_simp
  have "acclustsizes st' =
          counter_update (acclustsizes six_st) (length (hapindices (oclust_of six_c100) 0))"
    using histogram_key_is_cluster_size [OF g o] by (rule conjunct1)
  then have "acclustsizes st' = counter_update Map.empty 6"
    using six_st_fields by (simp only: l)
  moreover have "length (carriers (valleles_of six_v) (oclust_of six_c100) 0 0) = 3 \<and>
         length (carriers (valleles_of six_v) (oclust_of six_c100) 0 1) = 2" by code_simp
  ultimately show ?thesis using g o by blast
qed

text \<open>
  Claim C3 as it is stated fails on the same variant: the report gives the subclusters
  the sizes 3 and 2, the histogram has no entry at 5 and the entry 1 at 6.
\<close>

theorem histogram_key_counterexample:
  "outcome (process_variant six_cfg six_v six_st) =
     Inr (''150 3 2 0:0 1:0 2:0 3:0 4:0 \<newline>'', [], 0) \<and>
   histogram_at (3 + 2) (process_variant six_cfg six_v six_st) = Inr None \<and>
   histogram_at 6 (process_variant six_cfg six_v six_st) = Inr (Some 1)"
  using six_v_run by simp

subsection \<open>More than two candidate alleles\<close>

lemma py_all_mapE:
  assumes "mapE f xs = Inr bs"
  shows "py_all bs \<longleftrightarrow> list_all (\<lambda>x. f x = Inr True) xs"
proof -
  have "list_all2 (\<lambda>x y. f x = Inr y) xs bs"
    using assms by (simp only: mapE_Inr_iff)
  then show ?thesis
    by (induction rule: list_all2_induct) (auto simp: py_all_def)
qed

lemma more_than_two_msg_text:
  "more_than_two_msg pos =
     ''more than two alleles in cluster at '' @ str_int pos @ '' printing first two'' @ [CHR 0x0A]"
  by (simp add: more_than_two_msg_def)

text \<open>
  Claim C6. Where the two files agree on the number of haplotypes, the loop body does
  not raise. With at most one candidate allele it changes nothing. For a cluster of size
  at least 4 with more than two candidate alleles it appends to standard error the line
  \<^verbatim>\<open>more than two alleles in cluster at <pos> printing first two\<close> and goes on with
  the two smallest candidate allele codes: when every haplotype of the cluster is in a
  homozygous sample the cluster counts as a deletion and nothing is printed; otherwise
  the report of the carriers of these two alleles is printed, a line that is not empty,
  and the histogram is incremented.
\<close>

theorem more_than_two_candidates:
  assumes "length valleles = 2 * nindiv" and "length oclust \<le> length valleles"
  shows "(py_sum_bool (map (\<lambda>y. minpartsize \<le> y) x) \<le> 1 \<longrightarrow>
            gcs_cluster nindiv valleles oclust pos (j, x, z) st = Inr st) \<and>
         (minclustsize \<le> z \<and> 2 < py_sum_bool (map (\<lambda>y. minpartsize \<le> y) x) \<longrightarrow>
            candidate_alleles x ! 0 \<in> set (candidate_alleles x) \<and>
            candidate_alleles x ! 1 \<in> set (candidate_alleles x) \<and>
            candidate_alleles x ! 0 < candidate_alleles x ! 1 \<and>
            (\<forall>c\<in>set (candidate_alleles x).
               c = candidate_alleles x ! 0 \<or> candidate_alleles x ! 1 \<le> c) \<and>
            (\<exists>st'. gcs_cluster nindiv valleles oclust pos (j, x, z) st = Inr st' \<and>
               stderr st' = stderr st @
                 ''more than two alleles in cluster at '' @ str_int pos @
                 '' printing first two'' @ [CHR 0x0A] \<and>
               (if list_all (\<lambda>h. is_homozygous nindiv valleles h = Inr True)
                     (hapindices oclust j)
                then ndel st' = ndel st + 1 \<and> stdout st' = stdout st \<and>
                     acclustsizes st' = acclustsizes st
                else ndel st' = ndel st \<and> stdout st' \<noteq> stdout st \<and>
                     stdout st' = stdout st @
                       str_int pos @ '' '' @
                       str_nat (length (carriers valleles oclust j (candidate_alleles x ! 0))) @
                       '' '' @
                       str_nat (length (carriers valleles oclust j (candidate_alleles x ! 1))) @
                       '' '' @
                       concat (map (\<lambda>i. hap_identity (length oclust) i @ '' '')
                         (carriers valleles oclust j (candidate_alleles x ! 0) @
                          carriers valleles oclust j (candidate_alleles x ! 1))) @
                       [CHR 0x0A] \<and>
                     acclustsizes st' =
                       counter_update (acclustsizes st) (length (hapindices oclust j)))))"
proof (intro conjI impI)
  assume "py_sum_bool (map (\<lambda>y. minpartsize \<le> y) x) \<le> 1"
  then show "gcs_cluster nindiv valleles oclust pos (j, x, z) st = Inr st"
    by (rule gcs_cluster_unmixed)
next
  assume a: "minclustsize \<le> z \<and> 2 < py_sum_bool (map (\<lambda>y. minpartsize \<le> y) x)"
  then have z: "minclustsize \<le> z" and c: "2 \<le> py_sum_bool (map (\<lambda>y. minpartsize \<le> y) x)"
    and c3: "2 < py_sum_bool (map (\<lambda>y. minpartsize \<le> y) x)" by simp_all
  note f = candidate_alleles_first_two [OF c]
  from f show "candidate_alleles x ! 0 \<in> set (candidate_alleles x)" by simp
  from f show "candidate_alleles x ! 1 \<in> set (candidate_alleles x)" by simp
  from f show "candidate_alleles x ! 0 < candidate_alleles x ! 1" by simp
  from f show "\<forall>c\<in>set (candidate_alleles x).
               c = candidate_alleles x ! 0 \<or> candidate_alleles x ! 1 \<le> c" by simp
  let ?s0 = "carriers valleles oclust j (candidate_alleles x ! 0)"
  let ?s1 = "carriers valleles oclust j (candidate_alleles x ! 1)"
  let ?hom = "list_all (\<lambda>h. is_homozygous nindiv valleles h = Inr True) (hapindices oclust j)"
  from homozygous_list_defined [OF assms] obtain homozygous
    where h: "mapE (is_homozygous nindiv valleles) (hapindices oclust j) = Inr homozygous"
    by blast
  have p: "py_all homozygous \<longleftrightarrow> ?hom" using h by (rule py_all_mapE)
  have r: "report_line pos (length oclust) ?s0 ?s1 =
             str_int pos @ '' '' @ str_nat (length ?s0) @ '' '' @ str_nat (length ?s1) @ '' '' @
             concat (map (\<lambda>i. hap_identity (length oclust) i @ '' '') (?s0 @ ?s1)) @ [CHR 0x0A]"
    by (simp only: report_line_def)
  show "\<exists>st'. gcs_cluster nindiv valleles oclust pos (j, x, z) st = Inr st' \<and>
               stderr st' = stderr st @
                 ''more than two alleles in cluster at '' @ str_int pos @
                 '' printing first two'' @ [CHR 0x0A] \<and>
               (if ?hom
                then ndel st' = ndel st + 1 \<and> stdout st' = stdout st \<and>
                     acclustsizes st' = acclustsizes st
                else ndel st' = ndel st \<and> stdout st' \<noteq> stdout st \<and>
                     stdout st' = stdout st @
                       str_int pos @ '' '' @ str_nat (length ?s0) @ '' '' @
                       str_nat (length ?s1) @ '' '' @
                       concat (map (\<lambda>i. hap_identity (length oclust) i @ '' '') (?s0 @ ?s1)) @
                       [CHR 0x0A] \<and>
                     acclustsizes st' =
                       counter_update (acclustsizes st) (length (hapindices oclust j)))"
  proof (cases "py_all homozygous")
    case True
    then have "?hom" using p by simp
    with gcs_cluster_deletion [OF z c h True, of pos st] c3 show ?thesis
      by (simp add: more_than_two_msg_text)
  next
    case False
    then have "\<not> ?hom" using p by simp
    with gcs_cluster_report [OF z c h False, of pos st] c3 r
      report_line_nonempty [of pos "length oclust" ?s0 ?s1]
    show ?thesis
      by (simp add: more_than_two_msg_text)
  qed
qed

text \<open>Two haplotypes of each of the alleles 0, 1 and 2 in the cluster 0, three of them in
  heterozygous samples: the diagnostic is written and the alleles 0 and 1 are reported.
  The cluster 1 has one candidate allele and is passed over.\<close>

theorem more_than_two_candidates_witness:
  "length (valleles_of six_three) = 2 * 6 \<and>
   length (oclust_of six_c100) \<le> length (valleles_of six_three) \<and>
   py_sum_bool (map (\<lambda>y. minpartsize \<le> y) [1, 2, 0]) \<le> 1 \<and>
   gcs_cluster 6 (valleles_of six_three) (oclust_of six_c100) 150 (1, [1, 2, 0], 3) six_st =
     Inr six_st \<and>
   minclustsize \<le> 6 \<and> 2 < py_sum_bool (map (\<lambda>y. minpartsize \<le> y) [2, 2, 2]) \<and>
   candidate_alleles [2, 2, 2] = [0, 1, 2] \<and>
   map (is_homozygous 6 (valleles_of six_three)) (hapindices (oclust_of six_c100) 0) =
     [Inr True, Inr False, Inr True, Inr False, Inr True, Inr False] \<and>
   (\<exists>st'. gcs_cluster 6 (valleles_of six_three) (oclust_of six_c100) 150 (0, [2, 2, 2], 6) six_st =
            Inr st' \<and>
          stderr st' = ''more than two alleles in cluster at 150 printing first two\<newline>'' \<and>
          stdout st' = ''150 2 2 0:0 1:0 2:0 3:0 \<newline>'' \<and>
          ndel st' = 0)"
proof -
  let ?v = "valleles_of six_three" and ?o = "oclust_of six_c100"
  have a: "length ?v = 2 * 6" by code_simp
  have b: "length ?o \<le> length ?v" by code_simp
  have c: "py_sum_bool (map (\<lambda>y. minpartsize \<le> y) [1, 2, 0]) \<le> 1" by code_simp
  have d: "minclustsize \<le> 6 \<and> 2 < py_sum_bool (map (\<lambda>y. minpartsize \<le> y) [2, 2, 2])"
    by code_simp
  have e: "candidate_alleles [2, 2, 2] = [0, 1, 2]" by code_simp
  have m: "map (is_homozygous 6 ?v) (hapindices ?o 0) =
     [Inr True, Inr False, Inr True, Inr False, Inr True, Inr False]" by code_simp
  have nh: "\<not> list_all (\<lambda>h. is_homozygous 6 ?v h = Inr True) (hapindices ?o 0)"
    by code_simp
  have t: "str_int 150 @ '' '' @
             str_nat (length (carriers ?v ?o 0 (candidate_alleles [2, 2, 2] ! 0))) @ '' '' @
             str_nat (length (carriers ?v ?o 0 (candidate_alleles [2, 2, 2] ! 1))) @ '' '' @
             concat (map (\<lambda>i. hap_identity (length ?o) i @ '' '')
               (carriers ?v ?o 0 (candidate_alleles [2, 2, 2] ! 0) @
                carriers ?v ?o 0 (candidate_alleles [2, 2, 2] ! 1))) @ [CHR 0x0A] =
           ''150 2 2 0:0 1:0 2:0 3:0 \<newline>''"
    by code_simp
  have u: "''more than two alleles in cluster at '' @ str_int 150 @
             '' printing first two'' @ [CHR 0x0A] =
           ''more than two alleles in cluster at 150 printing first two\<newline>''"
    by code_simp
  have g: "gcs_cluster 6 ?v ?o 150 (1, [1, 2, 0], 3) six_st = Inr six_st"
    using more_than_two_candidates [OF a b, where x = "[1, 2, 0]" and pos = 150 and j = 1
        and z = 3 and st = six_st] c by blast
  from more_than_two_candidates [OF a b, where x = "[2, 2, 2]" and pos = 150 and j = 0
        and z = 6 and st = six_st] d nh
  obtain st' where h: "gcs_cluster 6 ?v ?o 150 (0, [2, 2, 2], 6) six_st = Inr st'"
    and i: "stderr st' = stderr six_st @ ''more than two alleles in cluster at '' @
              str_int 150 @ '' printing first two'' @ [CHR 0x0A]"
    and k: "ndel st' = ndel six_st"
    and l: "stdout st' = stdout six_st @ str_int 150 @ '' '' @
             str_nat (length (carriers ?v ?o 0 (candidate_alleles [2, 2, 2] ! 0))) @ '' '' @
             str_nat (length (carriers ?v ?o 0 (candidate_alleles [2, 2, 2] ! 1))) @ '' '' @
             concat (map (\<lambda>i. hap_identity (length ?o) i @ '' '')
               (carriers ?v ?o 0 (candidate_alleles [2, 2, 2] ! 0) @
                carriers ?v ?o 0 (candidate_alleles [2, 2, 2] ! 1))) @ [CHR 0x0A]"
    by (auto simp only: if_False)
  have "stderr st' = ''more than two alleles in cluster at 150 printing first two\<newline>''"
    using i six_st_fields by (simp only: u append_Nil)
  moreover have "stdout st' = ''150 2 2 0:0 1:0 2:0 3:0 \<newline>''"
    using l six_st_fields by (simp only: t append_Nil)
  moreover have "ndel st' = 0" using k six_st_fields by simp
  ultimately show ?thesis using a b c d e m g h by blast
qed

subsection \<open>The report line\<close>

lemma carriers_less: "h \<in> set (carriers valleles oclust j a) \<Longrightarrow> h < length oclust"
  by (simp add: carriers_def)

lemma token_line_report_tokens:
  "token_line (report_tokens pos k s0 s1) =
     str_int pos @ '' '' @ str_nat (length s0) @ '' '' @ str_nat (length s1) @ '' '' @
     concat (map (\<lambda>i. identity_token k i @ '' '') (s0 @ s1)) @ [CHR 0x0A]"
  by (simp add: token_line_def report_tokens_def comp_def)

lemma report_line_tokens:
  assumes "\<forall>h\<in>set (s0 @ s1). h < 2 * k" and "k \<le> 2 ^ 52"
  shows "report_line pos (2 * k) s0 s1 = token_line (report_tokens pos k s0 s1)"
proof -
  have "map (\<lambda>i. hap_identity (2 * k) i @ '' '') (s0 @ s1) =
        map (\<lambda>i. identity_token k i @ '' '') (s0 @ s1)"
  proof (rule map_cong [OF refl])
    fix h
    assume "h \<in> set (s0 @ s1)"
    then have "h < 2 * k" using assms(1) by blast
    with assms(2) show "hap_identity (2 * k) h @ '' '' = identity_token k h @ '' ''"
      by (simp only: hap_identity_exact)
  qed
  then show ?thesis
    by (simp only: report_line_def token_line_report_tokens)
qed

lemma digit_in_digits: "d < 10 \<Longrightarrow> ''0123456789'' ! d \<in> set ''0123456789''"
  by (rule nth_mem) simp

lemma str_nat_digits: "str_nat n \<noteq> [] \<and> set (str_nat n) \<subseteq> set ''0123456789''"
proof (induction n rule: str_nat.induct)
  case (1 n)
  show ?case
  proof (cases "n < 10")
    case True
    then have "str_nat n = [''0123456789'' ! n]" by (subst str_nat.simps) simp
    with digit_in_digits [OF True] show ?thesis by simp
  next
    case False
    then have "str_nat n = str_nat (n div 10) @ [''0123456789'' ! (n mod 10)]"
      by (subst str_nat.simps) simp
    moreover have "''0123456789'' ! (n mod 10) \<in> set ''0123456789''"
      by (rule digit_in_digits) simp
    ultimately show ?thesis using 1 [OF False] by simp
  qed
qed

lemma split_ws_token:
  assumes "\<forall>c\<in>set t. \<not> is_space c" and "is_space d" and "rev acc @ t \<noteq> []"
  shows "split_ws acc (t @ d # rest) = (rev acc @ t) # split_ws [] rest"
  using assms
proof (induction t arbitrary: acc)
  case Nil
  then show ?case by simp
next
  case (Cons c t)
  then have "split_ws (c # acc) (t @ d # rest) = (rev (c # acc) @ t) # split_ws [] rest"
    by (intro Cons.IH) simp_all
  with Cons.prems show ?case by simp
qed

lemma py_split_token_line:
  assumes "\<forall>t\<in>set ts. t \<noteq> [] \<and> (\<forall>c\<in>set t. \<not> is_space c)"
  shows "py_split (token_line ts) = ts"
proof -
  have "split_ws [] (concat (map (\<lambda>t. t @ '' '') ts) @ [CHR 0x0A]) = ts"
    using assms
  proof (induction ts)
    case Nil
    show ?case by (simp add: is_space_def)
  next
    case (Cons t ts)
    have "split_ws [] (t @ CHR '' '' # (concat (map (\<lambda>t. t @ '' '') ts) @ [CHR 0x0A])) =
            (rev [] @ t) # split_ws [] (concat (map (\<lambda>t. t @ '' '') ts) @ [CHR 0x0A])"
      using Cons.prems by (intro split_ws_token) (simp_all add: is_space_def)
    with Cons show ?case by simp
  qed
  then show ?thesis by (simp add: py_split_def token_line_def)
qed

lemma token_chars_not_space: "c \<in> set ''0123456789-:'' \<Longrightarrow> \<not> is_space c"
  by (auto simp: is_space_def)

lemma digits_subset: "set ''0123456789'' \<subseteq> set ''0123456789-:''"
  by simp

lemma str_nat_chars: "str_nat n \<noteq> [] \<and> set (str_nat n) \<subseteq> set ''0123456789-:''"
proof -
  have "set (str_nat n) \<subseteq> set ''0123456789''" using str_nat_digits [of n] by (rule conjunct2)
  then have "set (str_nat n) \<subseteq> set ''0123456789-:''" using digits_subset by (rule subset_trans)
  moreover have "str_nat n \<noteq> []" using str_nat_digits [of n] by (rule conjunct1)
  ultimately show ?thesis by (rule conjI [rotated])
qed

lemma str_int_chars: "str_int i \<noteq> [] \<and> set (str_int i) \<subseteq> set ''0123456789-:''"
proof (cases "i < 0")
  case True
  have "CHR ''-'' \<in> set ''0123456789-:''" by simp
  with str_nat_chars [of "nat (- i)"] True show ?thesis
    by (simp only: str_int_def if_True set_simps insert_subset) simp
next
  case False
  with str_nat_chars [of "nat i"] show ?thesis by (simp only: str_int_def if_False simp_thms)
qed

lemma identity_token_chars:
  "identity_token k h \<noteq> [] \<and> set (identity_token k h) \<subseteq> set ''0123456789-:''"
proof -
  have c: "set '':'' \<subseteq> set ''0123456789-:''" by simp
  have "set (identity_token k h) =
          set (str_nat (h mod k)) \<union> set '':'' \<union> set (str_nat (h div k))"
    by (simp only: identity_token_def set_append Un_assoc)
  moreover have "identity_token k h \<noteq> []"
    using str_nat_chars [of "h mod k"] by (simp only: identity_token_def) simp
  ultimately show ?thesis
    using str_nat_chars [of "h mod k"] str_nat_chars [of "h div k"] c
    by (simp only: Un_subset_iff) blast
qed

lemma report_tokens_chars:
  "\<forall>t\<in>set (report_tokens pos k s0 s1). t \<noteq> [] \<and> (\<forall>c\<in>set t. \<not> is_space c)"
proof
  fix t
  assume "t \<in> set (report_tokens pos k s0 s1)"
  then consider "t = str_int pos" | "t = str_nat (length s0)" | "t = str_nat (length s1)"
    | h where "t = identity_token k h"
    by (auto simp: report_tokens_def)
  then have "t \<noteq> [] \<and> set t \<subseteq> set ''0123456789-:''"
  proof cases
    case 1 then show ?thesis by (simp only: str_int_chars simp_thms)
  next
    case 2 then show ?thesis by (simp only: str_nat_chars simp_thms)
  next
    case 3 then show ?thesis by (simp only: str_nat_chars simp_thms)
  next
    case 4 then show ?thesis by (simp only: identity_token_chars simp_thms)
  qed
  then show "t \<noteq> [] \<and> (\<forall>c\<in>set t. \<not> is_space c)"
    using token_chars_not_space by blast
qed

lemma py_split_report: "py_split (token_line (report_tokens pos k s0 s1)) = report_tokens pos k s0 s1"
  using report_tokens_chars by (rule py_split_token_line)

text \<open>
  Claim C7. A report written for a cluster is one line: every token followed by one
  space, then a line feed (so the last token too is followed by a space). Read back with
  \<^verbatim>\<open>split()\<close>, the line is the position, the sizes of the two subclusters, the
  identities of the carriers of the first candidate allele and then those of the
  carriers of the second. An identity is the sample index, a colon and the side, 0 or 1.
  (For a cluster record of at most \<open>2 ^ 52\<close> samples, where the floats of the identity
  are exact.)
\<close>

theorem report_line_format:
  assumes "gcs_cluster nindiv valleles oclust pos (j, x, z) st = Inr st'"
    and "stdout st' \<noteq> stdout st"
    and "length oclust = 2 * k" and "k \<le> 2 ^ 52"
  shows "stdout st' = stdout st @
           token_line (report_tokens pos k
             (carriers valleles oclust j (candidate_alleles x ! 0))
             (carriers valleles oclust j (candidate_alleles x ! 1))) \<and>
         py_split (token_line (report_tokens pos k
             (carriers valleles oclust j (candidate_alleles x ! 0))
             (carriers valleles oclust j (candidate_alleles x ! 1)))) =
           [str_int pos,
            str_nat (length (carriers valleles oclust j (candidate_alleles x ! 0))),
            str_nat (length (carriers valleles oclust j (candidate_alleles x ! 1)))] @
           map (identity_token k) (carriers valleles oclust j (candidate_alleles x ! 0)) @
           map (identity_token k) (carriers valleles oclust j (candidate_alleles x ! 1)) \<and>
         list_all (\<lambda>h. h mod k < k \<and> h div k < 2)
           (carriers valleles oclust j (candidate_alleles x ! 0) @
            carriers valleles oclust j (candidate_alleles x ! 1))"
proof -
  let ?s0 = "carriers valleles oclust j (candidate_alleles x ! 0)"
  let ?s1 = "carriers valleles oclust j (candidate_alleles x ! 1)"
  have less: "\<forall>h\<in>set (?s0 @ ?s1). h < 2 * k"
    using carriers_less [of _ valleles oclust j] assms(3) by auto
  have "stdout st' = stdout st @ report_line pos (length oclust) ?s0 ?s1"
    using gcs_cluster_reported [OF assms(1,2)] by simp
  then have "stdout st' = stdout st @ token_line (report_tokens pos k ?s0 ?s1)"
    using report_line_tokens [OF less assms(4)] assms(3) by simp
  moreover have "\<forall>h\<in>set (?s0 @ ?s1). h mod k < k \<and> h div k < 2"
  proof
    fix h
    assume "h \<in> set (?s0 @ ?s1)"
    then have h: "h < 2 * k" using less by blast
    then have "0 < k" by simp
    moreover have "h div k < 2" using h by (simp add: less_mult_imp_div_less mult.commute)
    ultimately show "h mod k < k \<and> h div k < 2" by simp
  qed
  then have "list_all (\<lambda>h. h mod k < k \<and> h div k < 2) (?s0 @ ?s1)"
    by (simp only: list_all_iff)
  moreover have "py_split (token_line (report_tokens pos k ?s0 ?s1)) =
      [str_int pos, str_nat (length ?s0), str_nat (length ?s1)] @
      map (identity_token k) ?s0 @ map (identity_token k) ?s1"
    by (simp add: py_split_report) (simp add: report_tokens_def)
  ultimately show ?thesis by blast
qed

theorem report_line_format_witness:
  "length (oclust_of six_c100) = 2 * 6 \<and> (6::nat) \<le> 2 ^ 52 \<and>
   py_split ''150 3 2 0:0 1:0 2:0 3:0 4:0 \<newline>'' =
     [''150'', ''3'', ''2'', ''0:0'', ''1:0'', ''2:0'', ''3:0'', ''4:0''] \<and>
   (\<exists>st'. gcs_cluster 6 (valleles_of six_v) (oclust_of six_c100) 150 (0, [3, 2, 0], 6) six_st =
            Inr st' \<and>
          stdout st' \<noteq> stdout six_st \<and>
          stdout st' = ''150 3 2 0:0 1:0 2:0 3:0 4:0 \<newline>'')"
proof -
  have a: "length (oclust_of six_c100) = 2 * 6" by code_simp
  have b: "(6::nat) \<le> 2 ^ 52" by simp
  have c: "py_split ''150 3 2 0:0 1:0 2:0 3:0 4:0 \<newline>'' =
     [''150'', ''3'', ''2'', ''0:0'', ''1:0'', ''2:0'', ''3:0'', ''4:0'']" by code_simp
  have d: "token_line (report_tokens 150 6
             (carriers (valleles_of six_v) (oclust_of six_c100) 0 (candidate_alleles [3, 2, 0] ! 0))
             (carriers (valleles_of six_v) (oclust_of six_c100) 0 (candidate_alleles [3, 2, 0] ! 1))) =
           ''150 3 2 0:0 1:0 2:0 3:0 4:0 \<newline>''" by code_simp
  from six_v_cluster_reported obtain st'
    where g: "gcs_cluster 6 (valleles_of six_v) (oclust_of six_c100) 150 (0, [3, 2, 0], 6) six_st =
           Inr st'" and o: "stdout st' \<noteq> stdout six_st" by blast
  have "stdout st' = stdout six_st @ token_line (report_tokens 150 6
             (carriers (valleles_of six_v) (oclust_of six_c100) 0 (candidate_alleles [3, 2, 0] ! 0))
             (carriers (valleles_of six_v) (oclust_of six_c100) 0 (candidate_alleles [3, 2, 0] ! 1)))"
    using report_line_format [OF g o a b] by (rule conjunct1)
  then have "stdout st' = ''150 3 2 0:0 1:0 2:0 3:0 4:0 \<newline>''"
    using six_st_fields by (simp only: d) simp
  with a b c g o show ?thesis by blast
qed

end
